theory Spec2Isabelle
  imports
    Complex_Main
    "HOL-Library.Word"
    "HOL-Library.Sublist"
    "HOL-Library.Char_ord"
    "HOL-Library.List_Lexorder"
    "HOL-Library.Multiset"
    "HOL-Library.Log_Nat"
begin

section \<open>Tile coverage analysis: the data model of \<open>analyze_tile_coverage.py\<close>\<close>

text \<open>
  The script loads every screenshot with PIL, converts it to RGB and reads it as a numpy
  array of shape \<open>(height, width, 3)\<close> with \<open>uint8\<close> entries. The decoded picture is
  modelled by its two dimensions and the pixel at each (row, column); only the entries
  with \<open>row < height\<close> and \<open>column < width\<close> are ever read.
\<close>

type_synonym pixel = "8 word \<times> 8 word \<times> 8 word"

record image =
  height :: nat
  width :: nat
  px :: "nat \<Rightarrow> nat \<Rightarrow> pixel"

text \<open>
  A path names a file whose header PIL can read as a picture of some size, or one it
  cannot read at all.
\<close>

datatype png_file = Unreadable | Picture image

text \<open>
  The exceptions that can leave \<open>main\<close>: \<open>Image.open\<close> failing on a file (for a file
  it cannot read, for a picture without rows or columns, and for a picture with more
  pixels than Pillow accepts), \<open>os.listdir\<close> on a path that is not a directory, and a
  missing dictionary key.
\<close>

datatype exn =
    Open_error
  | UnidentifiedImageError
  | DecompressionBombError
  | NotADirectoryError
  | KeyError

text \<open>
  \<open>Image.open\<close>, as far as the script depends on it. It raises on a file it cannot
  read, and \<open>UnidentifiedImageError\<close> on a picture of height 0 or width 0. With Pillow's
  default \<open>MAX_IMAGE_PIXELS\<close> it raises \<open>DecompressionBombError\<close> on a picture of more than
  twice that many pixels. Every array that reaches the analysis therefore has at least
  one pixel and at most 178956970.
\<close>

definition max_image_pixels :: nat where
  "max_image_pixels = 1024 * 1024 * 1024 div 4 div 3"

definition image_open :: "png_file \<Rightarrow> exn + image" where
  "image_open f =
     (case f of
        Unreadable \<Rightarrow> Inl Open_error
      | Picture img \<Rightarrow>
          if height img = 0 \<or> width img = 0 then Inl UnidentifiedImageError
          else if height img * width img > 2 * max_image_pixels then Inl DecompressionBombError
          else Inr img)"

text \<open>The dictionaries with the keys \<open>top\<close>, \<open>left\<close>, \<open>bottom\<close>, \<open>right\<close>.\<close>

record region =
  top :: int
  left :: int
  bottom :: int
  right :: int

record ui_regions =
  header :: region
  sidebar :: region

section \<open>\<open>analyze_ui_regions\<close> and the intrusion test\<close>

text \<open>
  \<open>analyze_ui_regions\<close> (lines 55 to 68) opens the file, reads \<open>img.size\<close> and returns
  the two fixed rectangles together with the size as \<open>(width, height)\<close>.
\<close>

definition analyze_ui_regions :: "png_file \<Rightarrow> exn + (ui_regions \<times> (int \<times> int))" where
  "analyze_ui_regions f =
     (case image_open f of
        Inl e \<Rightarrow> Inl e
      | Inr img \<Rightarrow>
          Inr (\<lparr>header = \<lparr>top = 0, left = 0, bottom = 60, right = int (width img)\<rparr>,
                sidebar = \<lparr>top = 60, left = 0, bottom = int (height img), right = 200\<rparr>\<rparr>,
               (int (width img), int (height img))))"

text \<open>
  Lines 103 to 109 of \<open>main\<close>: the flag \<open>game_area_black\<close> starts as \<open>False\<close> and is
  set by two nested tests.
\<close>

definition game_area_black :: "region \<Rightarrow> ui_regions \<Rightarrow> bool" where
  "game_area_black black_region regions =
     (if bottom black_region > bottom (header regions)
      then (if right black_region > right (sidebar regions) then True else False)
      else False)"

section \<open>\<open>detect_black_areas\<close>\<close>

text \<open>
  \<open>np.float64\<close> values: the finite ones (a rational number each, always one that the
  format represents), the two infinities and \<open>nan\<close>. The two zeros of the format are not
  told apart; they compare equal and the script never divides by a computed zero.
\<close>

datatype float64 = Finite rat | PInf | NInf | NaN

text \<open>
  Rounding to the nearest value of the format, ties to the even significand.
  \<open>binade x\<close> is the exponent \<open>e\<close> with \<open>2^e \<le> x < 2^(e+1)\<close> of a positive \<open>x\<close>; the
  spacing of the format there is \<open>2^(e - 52)\<close>, and \<open>2^(-1074)\<close> below \<open>2^(-1022)\<close>.
  \<open>nearest x\<close> is the multiple of the spacing nearest to a positive \<open>x\<close>, and \<open>round64\<close>
  is the rounding of any rational, with overflow to the infinities.
\<close>

definition round_half_even :: "rat \<Rightarrow> int" where
  "round_half_even r =
     (let f = \<lfloor>r\<rfloor>; d = r - of_int f
      in if d < 1 / 2 then f else if 1 / 2 < d then f + 1 else if even f then f else f + 1)"

definition binade :: "rat \<Rightarrow> int" where
  "binade x =
     (if 1 \<le> x then bitlen \<lfloor>x\<rfloor> - 1
      else (let k = bitlen \<lfloor>1 / x\<rfloor> - 1 in if x = 2 powi (- k) then - k else - k - 1))"

definition nearest :: "rat \<Rightarrow> rat" where
  "nearest x =
     (let e = max (binade x) (- 1022); u = 2 powi (e - 52)
      in of_int (round_half_even (x / u)) * u)"

definition round64 :: "rat \<Rightarrow> float64" where
  "round64 x =
     (if x = 0 then Finite 0
      else if 0 < x then (if 2 powi 1024 \<le> nearest x then PInf else Finite (nearest x))
      else (if 2 powi 1024 \<le> nearest (- x) then NInf else Finite (- nearest (- x))))"

text \<open>Division and multiplication of the format: the exact result, rounded.\<close>

fun fdiv :: "float64 \<Rightarrow> float64 \<Rightarrow> float64" where
  "fdiv NaN b = NaN"
| "fdiv a NaN = NaN"
| "fdiv (Finite x) (Finite y) =
     (if y = 0 then (if x = 0 then NaN else if 0 < x then PInf else NInf)
      else round64 (x / y))"
| "fdiv (Finite x) b = Finite 0"
| "fdiv PInf (Finite y) = (if 0 \<le> y then PInf else NInf)"
| "fdiv NInf (Finite y) = (if 0 \<le> y then NInf else PInf)"
| "fdiv a b = NaN"

fun fmul :: "float64 \<Rightarrow> float64 \<Rightarrow> float64" where
  "fmul NaN b = NaN"
| "fmul a NaN = NaN"
| "fmul (Finite x) (Finite y) = round64 (x * y)"
| "fmul (Finite x) PInf = (if x = 0 then NaN else if 0 < x then PInf else NInf)"
| "fmul (Finite x) NInf = (if x = 0 then NaN else if 0 < x then NInf else PInf)"
| "fmul PInf (Finite y) = (if y = 0 then NaN else if 0 < y then PInf else NInf)"
| "fmul NInf (Finite y) = (if y = 0 then NaN else if 0 < y then NInf else PInf)"
| "fmul PInf PInf = PInf"
| "fmul NInf NInf = PInf"
| "fmul a b = NInf"

text \<open>
  Line 26, \<open>(black_pixels / total_pixels) * 100\<close>: numpy converts the two integers to
  \<open>float64\<close> and divides them, which raises nothing when the divisor is zero, and the
  quotient is multiplied by \<open>100.0\<close>. Each of the operations rounds.
\<close>

definition true_divide :: "int \<Rightarrow> int \<Rightarrow> float64" where
  "true_divide a b = fdiv (round64 (of_int a)) (round64 (of_int b))"

definition times_100 :: "float64 \<Rightarrow> float64" where
  "times_100 x = fmul x (Finite 100)"

text \<open>
  The order that sorting uses on \<open>float64\<close>: the IEEE order on the values other than
  \<open>NaN\<close>. IEEE leaves \<open>NaN\<close> unordered; here it is placed below every other value, which
  no result depends on, since no issue carries a \<open>NaN\<close> (lemma \<open>analyze_loop_Inr\<close>).
\<close>

fun rank :: "float64 \<Rightarrow> nat" where
  "rank NaN = 0"
| "rank NInf = 1"
| "rank (Finite q) = 2"
| "rank PInf = 3"

instantiation float64 :: linorder
begin

fun less_eq_float64 :: "float64 \<Rightarrow> float64 \<Rightarrow> bool" where
  "less_eq_float64 (Finite x) (Finite y) = (x \<le> y)"
| "less_eq_float64 a b = (rank a \<le> rank b)"

definition less_float64 :: "float64 \<Rightarrow> float64 \<Rightarrow> bool" where
  "less_float64 a b = (a \<le> b \<and> \<not> b \<le> a)"

instance
proof
  fix x y z :: float64
  show "(x < y) = (x \<le> y \<and> \<not> y \<le> x)"
    by (simp add: less_float64_def)
  show "x \<le> x"
    by (cases x) simp_all
  show "x \<le> y \<Longrightarrow> y \<le> z \<Longrightarrow> x \<le> z"
    by (cases x; cases y; cases z) simp_all
  show "x \<le> y \<Longrightarrow> y \<le> x \<Longrightarrow> x = y"
    by (cases x; cases y) simp_all
  show "x \<le> y \<or> y \<le> x"
    by (cases x; cases y) auto
qed

end

text \<open>
  The dictionary that \<open>detect_black_areas\<close> returns; the key \<open>black_region\<close> is present
  in the first \<open>return\<close> only.
\<close>

record black_areas =
  has_black :: bool
  percentage :: float64
  black_pixels :: int
  total_pixels :: int
  black_region :: "region option"

text \<open>
  Line 22: \<open>np.all(img_array < black_threshold, axis=2)\<close>. The comparison of a \<open>uint8\<close>
  entry with the Python integer is the comparison of their values.
\<close>

definition black_mask :: "image \<Rightarrow> int \<Rightarrow> nat \<Rightarrow> nat \<Rightarrow> bool" where
  "black_mask img black_threshold r c =
     (case px img r c of (cr, cg, cb) \<Rightarrow>
        uint cr < black_threshold \<and> uint cg < black_threshold \<and> uint cb < black_threshold)"

text \<open>The positions of the array in row-major order, as \<open>np.argwhere\<close> lists them.\<close>

definition indices :: "image \<Rightarrow> (nat \<times> nat) list" where
  "indices img = List.product [0..<height img] [0..<width img]"

definition np_sum :: "image \<Rightarrow> (nat \<Rightarrow> nat \<Rightarrow> bool) \<Rightarrow> int" where
  "np_sum img bmask = (\<Sum>(r, c) \<leftarrow> indices img. if bmask r c then 1 else 0)"

definition np_argwhere :: "image \<Rightarrow> (nat \<Rightarrow> nat \<Rightarrow> bool) \<Rightarrow> (nat \<times> nat) list" where
  "np_argwhere img bmask = filter (\<lambda>(r, c). bmask r c) (indices img)"

text \<open>
  Lines 12 to 53. \<open>black_coords.min(axis=0)\<close> and \<open>max(axis=0)\<close> are the minima and
  maxima of the rows and of the columns of the listed positions; the list is not empty
  there (line 32), which the \<open>case\<close> on it expresses.
\<close>

definition detect_black_areas :: "png_file \<Rightarrow> int \<Rightarrow> exn + black_areas" where
  "detect_black_areas f black_threshold =
     (case image_open f of
        Inl e \<Rightarrow> Inl e
      | Inr img \<Rightarrow>
          (let bmask = black_mask img black_threshold;
               total = int (height img) * int (width img);
               black = np_sum img bmask;
               black_percentage = times_100 (true_divide black total);
               no_black = \<lparr>has_black = False, percentage = black_percentage,
                           black_pixels = black, total_pixels = total, black_region = None\<rparr>
           in Inr (if black > 0
                   then (case np_argwhere img bmask of
                           [] \<Rightarrow> no_black
                         | p # ps \<Rightarrow>
                             \<lparr>has_black = True, percentage = black_percentage,
                              black_pixels = black, total_pixels = total,
                              black_region = Some
                                \<lparr>top = int (fold min (map fst ps) (fst p)),
                                 left = int (fold min (map snd ps) (snd p)),
                                 bottom = int (fold max (map fst ps) (fst p)),
                                 right = int (fold max (map snd ps) (snd p))\<rparr>\<rparr>)
                   else no_black)))"

section \<open>\<open>main\<close>\<close>

text \<open>An entry of \<open>issues_found\<close> (lines 113 to 118).\<close>

record issue =
  issue_file :: string
  black_percentage :: float64
  issue_region :: region
  severity :: string

text \<open>
  What \<open>print\<close> writes, one constructor for each \<open>print\<close> statement of \<open>main\<close>, with the
  values it formats.
\<close>

datatype line =
    Dir_not_found
  | Run_hint
  | No_screenshots
  | Analyzing_count nat
  | Analyzing string
  | Black_detected float64
  | Black_in_game_view region
  | Black_only_ui
  | No_significant_black float64
  | Rule_line
  | Summary_title
  | Issues_found nat
  | Most_problematic
  | Top_issue nat string float64
  | Top_region int int int int
  | Missing_coverage
  | Culling_hint
  | Viewport_hint
  | Edge_issues nat
  | Zoom_issues nat
  | Success
  | Coverage_ok

record state =
  stdout :: "line list"
  issues_found :: "issue list"

definition print :: "line \<Rightarrow> state \<Rightarrow> state" where
  "print l s = s\<lparr>stdout := stdout s @ [l]\<rparr>"

text \<open>
  \<open>str.lower\<close> on the ASCII letters, and the test \<open>sub in s\<close> for a substring. A
  character outside ASCII never becomes one of the letters of \<open>edge\<close> or \<open>zoom\<close> under
  \<open>str.lower\<close>, so the two tests of lines 146 and 147 see the same as in Python.
\<close>

definition lower_char :: "char \<Rightarrow> char" where
  "lower_char c =
     (if 65 \<le> (of_char c :: nat) \<and> (of_char c :: nat) \<le> 90
      then char_of ((of_char c :: nat) + 32) else c)"

definition lower :: "string \<Rightarrow> string" where
  "lower s = map lower_char s"

fun str_in :: "string \<Rightarrow> string \<Rightarrow> bool" where
  "str_in sub [] = (sub = [])"
| "str_in sub (c # cs) = (prefix sub (c # cs) \<or> str_in sub cs)"

text \<open>
  \<open>issues_found.sort(key=..., reverse=True)\<close>: \<open>list.sort\<close> is a stable sort, and with
  \<open>reverse=True\<close> it reverses the list, sorts it ascending and reverses the result, which
  keeps the entries with equal keys in their order.
\<close>

definition list_sort_reverse :: "('a \<Rightarrow> 'k::linorder) \<Rightarrow> 'a list \<Rightarrow> 'a list" where
  "list_sort_reverse key xs = rev (sort_key key (rev xs))"

text \<open>
  The body of the loop of lines 88 to 122 on one file name. \<open>contents\<close> gives the file
  behind each name of the directory. An exception leaves the loop with what was printed
  so far.
\<close>

definition loop_body :: "(string \<Rightarrow> png_file) \<Rightarrow> string \<Rightarrow> state \<Rightarrow> exn \<times> state + state" where
  "loop_body contents screenshot s =
     (let s1 = print (Analyzing screenshot) s in
      case detect_black_areas (contents screenshot) 10 of
        Inl e \<Rightarrow> Inl (e, s1)
      | Inr result \<Rightarrow>
          (case analyze_ui_regions (contents screenshot) of
             Inl e \<Rightarrow> Inl (e, s1)
           | Inr (regions, img_size) \<Rightarrow>
               if has_black result
               then (let s2 = print (Black_detected (percentage result)) s1 in
                     case black_region result of
                       None \<Rightarrow> Inl (KeyError, s2)
                     | Some box \<Rightarrow>
                         if game_area_black box regions
                         then Inr ((print (Black_in_game_view box) s2)
                                \<lparr>issues_found := issues_found s2 @
                                   [\<lparr>issue_file = screenshot,
                                     black_percentage = percentage result,
                                     issue_region = box,
                                     severity = ''HIGH''\<rparr>]\<rparr>)
                         else Inr (print Black_only_ui s2))
               else Inr (print (No_significant_black (percentage result)) s1)))"

fun analyze_loop :: "(string \<Rightarrow> png_file) \<Rightarrow> string list \<Rightarrow> state \<Rightarrow> exn \<times> state + state" where
  "analyze_loop contents [] s = Inr s"
| "analyze_loop contents (screenshot # rest) s =
     (case loop_body contents screenshot s of
        Inl e \<Rightarrow> Inl e
      | Inr s' \<Rightarrow> analyze_loop contents rest s')"

text \<open>Lines 136 to 139: two lines for each of the first five issues.\<close>

definition top_lines :: "issue list \<Rightarrow> line list" where
  "top_lines issues =
     concat (map (\<lambda>(i, issue).
                    [Top_issue (i + 1) (issue_file issue) (black_percentage issue),
                     Top_region (top (issue_region issue)) (left (issue_region issue))
                       (bottom (issue_region issue)) (right (issue_region issue))])
                 (enumerate 0 (take 5 issues)))"

definition edge_issues :: "issue list \<Rightarrow> issue list" where
  "edge_issues issues = filter (\<lambda>i. str_in ''edge'' (lower (issue_file i))) issues"

definition zoom_issues :: "issue list \<Rightarrow> issue list" where
  "zoom_issues issues = filter (\<lambda>i. str_in ''zoom'' (lower (issue_file i))) issues"

text \<open>Lines 124 to 158: the summary, the sort, the pattern counts and the returned flag.\<close>

definition summary :: "state \<Rightarrow> state \<times> bool" where
  "summary s =
     (let s1 = print Rule_line (print Summary_title (print Rule_line s)) in
      if issues_found s1 \<noteq> []
      then (let s2 = print (Issues_found (length (issues_found s1))) s1;
                s3 = s2\<lparr>issues_found := list_sort_reverse black_percentage (issues_found s2)\<rparr>;
                s4 = print Most_problematic s3;
                s5 = s4\<lparr>stdout := stdout s4 @ top_lines (issues_found s4)\<rparr>;
                s6 = print Viewport_hint (print Culling_hint (print Missing_coverage s5));
                edge = edge_issues (issues_found s6);
                zoom = zoom_issues (issues_found s6);
                s7 = (if edge \<noteq> [] then print (Edge_issues (length edge)) s6 else s6);
                s8 = (if zoom \<noteq> [] then print (Zoom_issues (length zoom)) s7 else s7)
            in (s8, length (issues_found s8) = 0))
      else (let s2 = print Coverage_ok (print Success s1)
            in (s2, length (issues_found s2) = 0)))"

text \<open>
  What the path \<open>tile_coverage_test\<close> names when the script starts: nothing, something
  that is not a directory, or a directory with the names \<open>os.listdir\<close> returns (in any
  order) and the file behind each name.
\<close>

record directory =
  listing :: "string list"
  contents :: "string \<Rightarrow> png_file"

datatype path_state = Absent | Not_a_directory | Dir directory

datatype outcome = SysExit int | Raised exn | Returned bool

definition init :: state where
  "init = \<lparr>stdout = [], issues_found = []\<rparr>"

definition list_screenshots :: "directory \<Rightarrow> string list" where
  "list_screenshots d = sort (filter (\<lambda>f. suffix ''.png'' f) (listing d))"

definition main :: "path_state \<Rightarrow> state \<times> outcome" where
  "main p =
     (case p of
        Absent \<Rightarrow> (print Run_hint (print Dir_not_found init), SysExit 1)
      | Not_a_directory \<Rightarrow> (init, Raised NotADirectoryError)
      | Dir d \<Rightarrow>
          (let screenshots = list_screenshots d in
           if screenshots = []
           then (print No_screenshots init, SysExit 1)
           else (case analyze_loop (contents d) screenshots
                        (print (Analyzing_count (length screenshots)) init) of
                   Inl (e, s) \<Rightarrow> (s, Raised e)
                 | Inr s \<Rightarrow> (case summary s of (s', success) \<Rightarrow> (s', Returned success)))))"

text \<open>
  Lines 160 to 170, once the imports have succeeded: the exit status of the process.
  An exception that nothing catches ends the interpreter with status 1.
\<close>

definition exit_status :: "state \<times> outcome \<Rightarrow> int" where
  "exit_status r =
     (case snd r of
        SysExit n \<Rightarrow> n
      | Raised e \<Rightarrow> 1
      | Returned success \<Rightarrow> (if success then 0 else 1))"

text \<open>The file names that the loop announced, in the order of the output.\<close>

fun analyzed :: "line list \<Rightarrow> string list" where
  "analyzed [] = []"
| "analyzed (Analyzing f # ls) = f # analyzed ls"
| "analyzed (l # ls) = analyzed ls"

section \<open>Notions used in the statements and proofs\<close>

text \<open>
  The set of the black positions of a picture and the smallest rectangle around a set of
  positions. They are not part of the script: the theorems relate what the script
  computes to them.
\<close>

definition black_set :: "image \<Rightarrow> int \<Rightarrow> (nat \<times> nat) set" where
  "black_set img thr = {(r, c). r < height img \<and> c < width img \<and> black_mask img thr r c}"

definition bounding_box :: "(nat \<times> nat) set \<Rightarrow> region" where
  "bounding_box B =
     \<lparr>top = int (Min (fst ` B)), left = int (Min (snd ` B)),
      bottom = int (Max (fst ` B)), right = int (Max (snd ` B))\<rparr>"

text \<open>
  A picture of 3 rows and 4 columns whose only black pixels (under the threshold 10) are
  the last two of the middle row.
\<close>

definition small_picture :: image where
  "small_picture =
     \<lparr>height = 3, width = 4,
      px = (\<lambda>r c. if r = 1 \<and> 2 \<le> c then (0, 5, 9) else (10, 0, 0))\<rparr>"

text \<open>
  A picture of 5 rows and 5 columns whose black pixels are the first row and the first
  two of the second row, 7 of 25.
\<close>

definition seven_of_25 :: image where
  "seven_of_25 =
     \<lparr>height = 5, width = 5,
      px = (\<lambda>r c. if r = 0 \<or> (r = 1 \<and> c < 2) then (0, 0, 0) else (255, 255, 255))\<rparr>"

text \<open>
  What the summary of lines 124 to 158 prints for a list of collected issues, and the
  two kinds of line that report a pattern count.
\<close>

definition report :: "issue list \<Rightarrow> line list" where
  "report issues =
     (if issues = [] then [Rule_line, Summary_title, Rule_line, Success, Coverage_ok]
      else [Rule_line, Summary_title, Rule_line, Issues_found (length issues), Most_problematic] @
           top_lines (list_sort_reverse black_percentage issues) @
           [Missing_coverage, Culling_hint, Viewport_hint] @
           (if edge_issues (list_sort_reverse black_percentage issues) \<noteq> []
            then [Edge_issues (length (edge_issues (list_sort_reverse black_percentage issues)))]
            else []) @
           (if zoom_issues (list_sort_reverse black_percentage issues) \<noteq> []
            then [Zoom_issues (length (zoom_issues (list_sort_reverse black_percentage issues)))]
            else []))"


text \<open>
  A picture of \<open>h\<close> rows and \<open>w\<close> columns that is black on the rows \<open>r0\<close> to \<open>r1\<close> of
  the columns \<open>c0\<close> to \<open>c1\<close> and white elsewhere, and three directories.
\<close>

definition block_picture :: "nat \<Rightarrow> nat \<Rightarrow> nat \<Rightarrow> nat \<Rightarrow> nat \<Rightarrow> nat \<Rightarrow> image" where
  "block_picture h w r0 r1 c0 c1 =
     \<lparr>height = h, width = w,
      px = (\<lambda>r c. if r0 \<le> r \<and> r \<le> r1 \<and> c0 \<le> c \<and> c \<le> c1 then (0, 0, 0) else (255, 255, 255))\<rparr>"

definition example_dir :: directory where
  "example_dir =
     \<lparr>listing = [''zoom_2.png'', ''notes.txt'', ''menu.png'', ''edge_1.png''],
      contents = (\<lambda>f. if f = ''edge_1.png'' then Picture (block_picture 100 300 50 99 200 229)
                      else if f = ''zoom_2.png'' then Picture (block_picture 100 300 0 99 100 219)
                      else if f = ''menu.png'' then Picture small_picture
                      else Unreadable)\<rparr>"

definition clean_dir :: directory where
  "clean_dir = \<lparr>listing = [''menu.png''], contents = (\<lambda>f. Picture small_picture)\<rparr>"

definition empty_dir :: directory where
  "empty_dir = \<lparr>listing = [''notes.txt''], contents = (\<lambda>f. Unreadable)\<rparr>"

text \<open>
  The two issues of \<open>example_dir\<close>, and the final states of the runs on \<open>example_dir\<close>
  and \<open>clean_dir\<close>.
\<close>

definition example_issue_edge :: issue where
  "example_issue_edge =
     \<lparr>issue_file = ''edge_1.png'', black_percentage = Finite 5,
      issue_region = \<lparr>top = 50, left = 200, bottom = 99, right = 229\<rparr>, severity = ''HIGH''\<rparr>"

definition example_issue_zoom :: issue where
  "example_issue_zoom =
     \<lparr>issue_file = ''zoom_2.png'', black_percentage = Finite 40,
      issue_region = \<lparr>top = 0, left = 100, bottom = 99, right = 219\<rparr>, severity = ''HIGH''\<rparr>"

definition example_final :: state where
  "example_final =
     \<lparr>stdout =
        [Analyzing_count 3,
         Analyzing ''edge_1.png'', Black_detected (Finite 5),
         Black_in_game_view \<lparr>top = 50, left = 200, bottom = 99, right = 229\<rparr>,
         Analyzing ''menu.png'', Black_detected (Finite (2345624805922133 / 140737488355328)), Black_only_ui,
         Analyzing ''zoom_2.png'', Black_detected (Finite 40),
         Black_in_game_view \<lparr>top = 0, left = 100, bottom = 99, right = 219\<rparr>,
         Rule_line, Summary_title, Rule_line, Issues_found 2, Most_problematic,
         Top_issue 1 ''zoom_2.png'' (Finite 40), Top_region 0 100 99 219,
         Top_issue 2 ''edge_1.png'' (Finite 5), Top_region 50 200 99 229,
         Missing_coverage, Culling_hint, Viewport_hint, Edge_issues 1, Zoom_issues 1],
      issues_found = [example_issue_zoom, example_issue_edge]\<rparr>"

definition clean_final :: state where
  "clean_final =
     \<lparr>stdout =
        [Analyzing_count 1,
         Analyzing ''menu.png'', Black_detected (Finite (2345624805922133 / 140737488355328)), Black_only_ui,
         Rule_line, Summary_title, Rule_line, Success, Coverage_ok],
      issues_found = []\<rparr>"

section \<open>The intrusion test\<close>

text \<open>
  Claim C1. For every bounding box and every picture of width \<open>w\<close> and height \<open>h\<close>, the
  header is \<open>{top 0, bottom 60, left 0, right w}\<close>, the sidebar is
  \<open>{top 60, bottom h, left 0, right 200}\<close>, and the box is flagged as a game-view
  intrusion exactly when its bottom is strictly greater than 60 and its right is strictly
  greater than 200.
\<close>

theorem C1_intrusion_iff:
  "analyze_ui_regions (Picture img) = Inr (regions, dims) \<Longrightarrow>
     header regions = \<lparr>top = 0, left = 0, bottom = 60, right = int (width img)\<rparr> \<and>
     sidebar regions = \<lparr>top = 60, left = 0, bottom = int (height img), right = 200\<rparr> \<and>
     game_area_black box regions = (60 < bottom box \<and> 200 < right box)"
  by (auto simp: analyze_ui_regions_def image_open_def game_area_black_def split: if_splits)

theorem C1_intrusion_iff_witness:
  "analyze_ui_regions (Picture \<lparr>height = 600, width = 800, px = (\<lambda>r c. (0, 0, 0))\<rparr>) =
     Inr (\<lparr>header = \<lparr>top = 0, left = 0, bottom = 60, right = 800\<rparr>,
           sidebar = \<lparr>top = 60, left = 0, bottom = 600, right = 200\<rparr>\<rparr>, (800, 600)) \<and>
   game_area_black \<lparr>top = 0, left = 0, bottom = 599, right = 799\<rparr>
     \<lparr>header = \<lparr>top = 0, left = 0, bottom = 60, right = 800\<rparr>,
      sidebar = \<lparr>top = 60, left = 0, bottom = 600, right = 200\<rparr>\<rparr> \<and>
   \<not> game_area_black \<lparr>top = 0, left = 0, bottom = 50, right = 799\<rparr>
     \<lparr>header = \<lparr>top = 0, left = 0, bottom = 60, right = 800\<rparr>,
      sidebar = \<lparr>top = 60, left = 0, bottom = 600, right = 200\<rparr>\<rparr>"
proof -
  let ?img = "\<lparr>height = 600, width = 800, px = (\<lambda>r c. (0, 0, 0))\<rparr> :: image"
  let ?regions = "\<lparr>header = \<lparr>top = 0, left = 0, bottom = 60, right = 800\<rparr>,
                   sidebar = \<lparr>top = 60, left = 0, bottom = 600, right = 200\<rparr>\<rparr>"
  have run: "analyze_ui_regions (Picture ?img) = Inr (?regions, (800, 600))"
    by (simp add: analyze_ui_regions_def image_open_def max_image_pixels_def)
  show ?thesis
    using run
      C1_intrusion_iff [OF run, of "\<lparr>top = 0, left = 0, bottom = 599, right = 799\<rparr>"]
      C1_intrusion_iff [OF run, of "\<lparr>top = 0, left = 0, bottom = 50, right = 799\<rparr>"]
    by simp
qed

lemma analyze_ui_regions_800_600:
  "analyze_ui_regions (Picture \<lparr>height = 600, width = 800, px = (\<lambda>r c. (0, 0, 0))\<rparr>) =
     Inr (\<lparr>header = \<lparr>top = 0, left = 0, bottom = 60, right = 800\<rparr>,
           sidebar = \<lparr>top = 60, left = 0, bottom = 600, right = 200\<rparr>\<rparr>, (800, 600))"
  by (simp add: analyze_ui_regions_def image_open_def max_image_pixels_def)

lemma analyze_ui_regions_small:
  "analyze_ui_regions (Picture small_picture) =
     Inr (\<lparr>header = \<lparr>top = 0, left = 0, bottom = 60, right = 4\<rparr>,
           sidebar = \<lparr>top = 60, left = 0, bottom = 3, right = 200\<rparr>\<rparr>, (4, 3))"
  by (simp add: analyze_ui_regions_def image_open_def max_image_pixels_def small_picture_def)

text \<open>
  Claim C8. With the regions of one picture, a box that is not flagged becomes flagged
  when its bottom is enlarged to a value above 60 and its right to a value above 200.
\<close>

theorem C8_monotonic:
  assumes "analyze_ui_regions (Picture img) = Inr (regions, dims)"
    and "\<not> game_area_black box regions"
    and "bottom box \<le> b" and "right box \<le> r"
    and "60 < b" and "200 < r"
  shows "game_area_black (box\<lparr>bottom := b, right := r\<rparr>) regions"
  using assms by (auto simp: analyze_ui_regions_def image_open_def game_area_black_def split: if_splits)

theorem C8_monotonic_witness:
  "\<not> game_area_black \<lparr>top = 0, left = 0, bottom = 599, right = 150\<rparr>
       \<lparr>header = \<lparr>top = 0, left = 0, bottom = 60, right = 800\<rparr>,
        sidebar = \<lparr>top = 60, left = 0, bottom = 600, right = 200\<rparr>\<rparr> \<and>
   game_area_black \<lparr>top = 0, left = 0, bottom = 599, right = 201\<rparr>
       \<lparr>header = \<lparr>top = 0, left = 0, bottom = 60, right = 800\<rparr>,
        sidebar = \<lparr>top = 60, left = 0, bottom = 600, right = 200\<rparr>\<rparr>"
proof -
  let ?regions = "\<lparr>header = \<lparr>top = 0, left = 0, bottom = 60, right = 800\<rparr>,
                   sidebar = \<lparr>top = 60, left = 0, bottom = 600, right = 200\<rparr>\<rparr>"
  let ?box = "\<lparr>top = 0, left = 0, bottom = 599, right = 150\<rparr>"
  have no: "\<not> game_area_black ?box ?regions"
    by (simp add: game_area_black_def)
  have "game_area_black (?box\<lparr>bottom := 599, right := 201\<rparr>) ?regions"
    by (rule C8_monotonic [OF analyze_ui_regions_800_600 no]) simp_all
  then show ?thesis
    using no by simp
qed

text \<open>
  Claim C10. The result of the intrusion test is a function of the bottom and the right
  of the box alone: two boxes with the same bottom and the same right get the same
  result, whatever their top and left and whatever the two pictures whose regions they
  are tested against.
\<close>

theorem C10_bottom_right_only:
  assumes "analyze_ui_regions (Picture img1) = Inr (regions1, dims1)"
    and "analyze_ui_regions (Picture img2) = Inr (regions2, dims2)"
    and "bottom box1 = bottom box2" and "right box1 = right box2"
  shows "game_area_black box1 regions1 = game_area_black box2 regions2"
  using assms by (auto simp: analyze_ui_regions_def image_open_def game_area_black_def split: if_splits)

theorem C10_bottom_right_only_witness:
  "game_area_black \<lparr>top = 0, left = 0, bottom = 100, right = 300\<rparr>
       \<lparr>header = \<lparr>top = 0, left = 0, bottom = 60, right = 800\<rparr>,
        sidebar = \<lparr>top = 60, left = 0, bottom = 600, right = 200\<rparr>\<rparr> =
   game_area_black \<lparr>top = 70, left = 250, bottom = 100, right = 300\<rparr>
       \<lparr>header = \<lparr>top = 0, left = 0, bottom = 60, right = 4\<rparr>,
        sidebar = \<lparr>top = 60, left = 0, bottom = 3, right = 200\<rparr>\<rparr>"
  by (rule C10_bottom_right_only [OF analyze_ui_regions_800_600 analyze_ui_regions_small])
    simp_all

section \<open>Rounding to \<open>float64\<close>\<close>

lemma round_half_even_bounds:
  "of_int (round_half_even r) - 1 / 2 \<le> r \<and> r \<le> of_int (round_half_even r) + 1 / 2"
proof -
  define f where "f = \<lfloor>r\<rfloor>"
  have a: "of_int f \<le> r" and b: "r < of_int f + 1"
    unfolding f_def by linarith+
  have "round_half_even r =
          (if r - of_int f < 1 / 2 then f else if 1 / 2 < r - of_int f then f + 1
           else if even f then f else f + 1)"
    by (simp add: round_half_even_def Let_def f_def)
  then show ?thesis
    using a b by (auto split: if_splits)
qed

lemma round_half_even_mono:
  assumes "r \<le> s"
  shows "round_half_even r \<le> round_half_even s"
proof (rule ccontr)
  assume "\<not> round_half_even r \<le> round_half_even s"
  then have "round_half_even s + 1 \<le> round_half_even r" by simp
  then have "(of_int (round_half_even s) :: rat) + 1 \<le> of_int (round_half_even r)"
    by (metis of_int_1 of_int_add of_int_le_iff)
  moreover note round_half_even_bounds [of r] round_half_even_bounds [of s]
  ultimately have "s \<le> r" by linarith
  with assms have "r = s" by simp
  with \<open>\<not> round_half_even r \<le> round_half_even s\<close> show False by simp
qed

lemma round_half_even_of_int: "round_half_even (of_int k) = k"
  by (simp add: round_half_even_def)

lemma round_half_even_unique:
  assumes "of_int m - 1 / 2 < r" and "r < of_int m + 1 / 2"
  shows "round_half_even r = m"
proof -
  note b = round_half_even_bounds [of r]
  have "(of_int (round_half_even r) :: rat) < of_int m + 1" using assms b by linarith
  then have "round_half_even r < m + 1"
    by (metis of_int_1 of_int_add of_int_less_iff)
  moreover have "(of_int m :: rat) < of_int (round_half_even r) + 1" using assms b by linarith
  then have "m < round_half_even r + 1"
    by (metis of_int_1 of_int_add of_int_less_iff)
  ultimately show ?thesis by simp
qed

lemma binade_ge_1:
  fixes x :: rat
  assumes "1 \<le> x"
  shows "2 powi (bitlen \<lfloor>x\<rfloor> - 1) \<le> x \<and> x < 2 powi (bitlen \<lfloor>x\<rfloor>)" and "1 \<le> bitlen \<lfloor>x\<rfloor>"
proof -
  let ?n = "\<lfloor>x\<rfloor>"
  have n: "0 < ?n" using assms by simp
  from bitlen_bounds [OF n] have lo: "2 ^ nat (bitlen ?n - 1) \<le> ?n" and hi: "?n < 2 ^ nat (bitlen ?n)"
    by simp_all
  show b1: "1 \<le> bitlen ?n"
    using n bitlen_eq_zero_iff [of ?n] bitlen_nonneg [of ?n] by linarith
  have "(2 :: rat) powi (bitlen ?n - 1) = of_int (2 ^ nat (bitlen ?n - 1))"
    using b1 by (simp add: power_int_nonneg_exp)
  also have "\<dots> \<le> of_int ?n" using lo by (simp only: of_int_le_iff)
  also have "\<dots> \<le> x" by simp
  finally have low: "2 powi (bitlen ?n - 1) \<le> x" .
  have "?n + 1 \<le> 2 ^ nat (bitlen ?n)" using hi by simp
  then have "(of_int (?n + 1) :: rat) \<le> of_int (2 ^ nat (bitlen ?n))"
    by (simp only: of_int_le_iff)
  moreover have "x < of_int (?n + 1)" by simp linarith
  moreover have "(2 :: rat) powi (bitlen ?n) = of_int (2 ^ nat (bitlen ?n))"
    using b1 by (simp add: power_int_nonneg_exp)
  ultimately have "x < 2 powi (bitlen ?n)" by simp
  with low show "2 powi (bitlen \<lfloor>x\<rfloor> - 1) \<le> x \<and> x < 2 powi (bitlen \<lfloor>x\<rfloor>)" by simp
qed

lemma binade_bounds:
  assumes "0 < x"
  shows "2 powi (binade x) \<le> x \<and> x < 2 powi (binade x + 1)"
proof (cases "1 \<le> x")
  case True
  then show ?thesis
    using binade_ge_1 (1) [OF True] by (simp add: binade_def)
next
  case False
  define k where "k = bitlen \<lfloor>1 / x\<rfloor> - 1"
  have y: "1 \<le> 1 / x" using assms False by simp
  from binade_ge_1 [OF y] have lo: "2 powi k \<le> 1 / x" and hi: "1 / x < 2 powi (k + 1)"
    by (simp_all add: k_def)
  have p: "(0 :: rat) < 2 powi k" "(0 :: rat) < 2 powi (k + 1)" by simp_all
  have m1: "(2 :: rat) powi (- k) = 1 / 2 powi k"
    by (simp add: power_int_minus divide_inverse)
  have m2: "(2 :: rat) powi (- k - 1) = 1 / 2 powi (k + 1)"
    using power_int_minus [of "2 :: rat" "k + 1"] by (simp add: divide_inverse)
  have up: "x \<le> 2 powi (- k)"
    unfolding m1 using lo assms p(1) by (simp add: field_simps)
  have down: "2 powi (- k - 1) < x"
    unfolding m2 using hi assms p(2) by (simp add: field_simps)
  have bin: "binade x = (if x = 2 powi (- k) then - k else - k - 1)"
    using False by (simp add: binade_def Let_def k_def)
  show ?thesis
  proof (cases "x = 2 powi (- k)")
    case True
    have "(2 :: rat) powi (- k) < 2 powi (- k + 1)"
      by (rule power_int_strict_increasing) simp_all
    then show ?thesis using True bin by simp
  next
    case ne: False
    have "- k - 1 + 1 = - k" by simp
    then show ?thesis using up down ne bin by simp
  qed
qed

lemma binade_unique:
  assumes "2 powi e \<le> x" and "x < 2 powi (e + 1)"
  shows "binade x = e"
proof -
  have x: "0 < x"
    using assms(1) zero_less_power_int [of "2 :: rat" e] by linarith
  note b = binade_bounds [OF x]
  have "(2 :: rat) powi e < 2 powi (binade x + 1)" using assms b by linarith
  then have "e < binade x + 1"
    by (metis not_less power_int_increasing one_le_numeral)
  moreover have "(2 :: rat) powi (binade x) < 2 powi (e + 1)" using assms b by linarith
  then have "binade x < e + 1"
    by (metis not_less power_int_increasing one_le_numeral)
  ultimately show ?thesis by simp
qed

lemma binade_mono:
  assumes "0 < x" and "x \<le> y"
  shows "binade x \<le> binade y"
proof -
  have y: "0 < y" using assms by simp
  have "(2 :: rat) powi (binade x) < 2 powi (binade y + 1)"
    using binade_bounds [OF assms(1)] binade_bounds [OF y] assms(2) by linarith
  then have "binade x < binade y + 1"
    by (metis not_less power_int_increasing one_le_numeral)
  then show ?thesis by simp
qed


lemma round_half_even_nonneg: "0 \<le> r \<Longrightarrow> 0 \<le> round_half_even r"
  using round_half_even_mono [of 0 r] round_half_even_of_int [of 0] by simp

lemma pow2_quot:
  assumes "a - b = int n"
  shows "(2 :: rat) powi a / 2 powi b = of_int (2 ^ n)"
proof -
  have a: "a = b + int n" using assms by simp
  show ?thesis unfolding a by (simp add: power_int_add)
qed

lemma pow2_53: "(2 :: rat) powi (e + 1) / 2 powi (e - 52) = of_int (2 ^ 53)"
  by (rule pow2_quot) simp

lemma pow2_52: "(2 :: rat) powi e / 2 powi (e - 52) = of_int (2 ^ 52)"
  by (rule pow2_quot) simp

lemma scaled_upper:
  fixes x :: rat
  assumes "x < 2 powi (e + 1)"
  shows "(of_int (round_half_even (x / 2 powi (e - 52))) :: rat) * 2 powi (e - 52) \<le> 2 powi (e + 1)"
proof -
  let ?u = "(2 :: rat) powi (e - 52)"
  have u: "0 < ?u" by simp
  have "x / ?u \<le> 2 powi (e + 1) / ?u"
    using assms u by (intro divide_right_mono) simp_all
  then have "x / ?u \<le> of_int (2 ^ 53)" by (simp only: pow2_53)
  then have "round_half_even (x / ?u) \<le> 2 ^ 53"
    using round_half_even_mono round_half_even_of_int by metis
  then have "(of_int (round_half_even (x / ?u)) :: rat) \<le> of_int (2 ^ 53)"
    by (simp only: of_int_le_iff)
  then have "of_int (round_half_even (x / ?u)) * ?u \<le> of_int (2 ^ 53) * ?u"
    using u by (simp only: mult_le_cancel_right_pos)
  also have "of_int (2 ^ 53) * ?u = 2 powi (e + 1)"
    using pow2_53 [of e] u by (simp add: field_simps)
  finally show ?thesis .
qed

lemma scaled_lower:
  fixes x :: rat
  assumes "2 powi e \<le> x"
  shows "(2 :: rat) powi e \<le> of_int (round_half_even (x / 2 powi (e - 52))) * 2 powi (e - 52)"
proof -
  let ?u = "(2 :: rat) powi (e - 52)"
  have u: "0 < ?u" by simp
  have "2 powi e / ?u \<le> x / ?u"
    using assms u by (intro divide_right_mono) simp_all
  then have "of_int (2 ^ 52) \<le> x / ?u" by (simp only: pow2_52)
  then have "2 ^ 52 \<le> round_half_even (x / ?u)"
    using round_half_even_mono round_half_even_of_int by metis
  then have "(of_int (2 ^ 52) :: rat) \<le> of_int (round_half_even (x / ?u))"
    by (simp only: of_int_le_iff)
  then have le: "of_int (2 ^ 52) * ?u \<le> of_int (round_half_even (x / ?u)) * ?u"
    using u by (simp only: mult_le_cancel_right_pos)
  have "of_int (2 ^ 52) * ?u = 2 powi e"
    using pow2_52 [of e] u by (simp add: field_simps)
  then have "2 powi e = of_int (2 ^ 52) * ?u" by (rule sym)
  also note le
  finally show ?thesis .
qed

lemma nearest_upper:
  assumes "0 < x"
  shows "nearest x \<le> 2 powi (max (binade x) (- 1022) + 1)"
proof -
  let ?e = "max (binade x) (- 1022)"
  have "x < 2 powi (binade x + 1)" using binade_bounds [OF assms] by simp
  also have "(2 :: rat) powi (binade x + 1) \<le> 2 powi (?e + 1)"
    by (rule power_int_increasing) simp_all
  finally have "x < 2 powi (?e + 1)" .
  from scaled_upper [OF this] show ?thesis
    by (simp add: nearest_def Let_def)
qed

lemma nearest_lower:
  assumes "0 < x" and "- 1022 \<le> binade x"
  shows "2 powi (binade x) \<le> nearest x"
proof -
  have e: "max (binade x) (- 1022) = binade x" using assms(2) by simp
  have "2 powi (binade x) \<le> x" using binade_bounds [OF assms(1)] by simp
  from scaled_lower [OF this] show ?thesis
    by (simp add: nearest_def Let_def e)
qed

lemma nearest_eq:
  assumes "2 powi e \<le> x" and "x < 2 powi (e + 1)" and "- 1022 \<le> e"
  shows "nearest x = of_int (round_half_even (x / 2 powi (e - 52))) * 2 powi (e - 52)"
  using binade_unique [OF assms(1,2)] assms(3) by (simp add: nearest_def Let_def)

lemma nearest_mono:
  assumes "0 < x" and "x \<le> y"
  shows "nearest x \<le> nearest y"
proof -
  have y: "0 < y" using assms by simp
  let ?ex = "max (binade x) (- 1022)" and ?ey = "max (binade y) (- 1022)"
  have le: "?ex \<le> ?ey" using binade_mono [OF assms] by simp
  show ?thesis
  proof (cases "?ex = ?ey")
    case True
    let ?u = "(2 :: rat) powi (?ey - 52)"
    have u: "0 < ?u" by simp
    have "x / ?u \<le> y / ?u" using assms(2) u by (intro divide_right_mono) simp_all
    then have "round_half_even (x / ?u) \<le> round_half_even (y / ?u)"
      by (rule round_half_even_mono)
    then have "(of_int (round_half_even (x / ?u)) :: rat) \<le> of_int (round_half_even (y / ?u))"
      by (simp only: of_int_le_iff)
    then have "of_int (round_half_even (x / ?u)) * ?u \<le> of_int (round_half_even (y / ?u)) * ?u"
      using u by (simp only: mult_le_cancel_right_pos)
    then show ?thesis
      using True by (simp add: nearest_def Let_def)
  next
    case False
    with le have lt: "?ex + 1 \<le> ?ey" by simp
    then have ylow: "- 1022 \<le> binade y" and ey: "?ey = binade y" by simp_all
    have "nearest x \<le> 2 powi (?ex + 1)" by (rule nearest_upper [OF assms(1)])
    also have "(2 :: rat) powi (?ex + 1) \<le> 2 powi ?ey"
      using lt by (intro power_int_increasing) simp_all
    also have "\<dots> \<le> nearest y"
      unfolding ey by (rule nearest_lower [OF y ylow])
    finally show ?thesis .
  qed
qed

lemma binade_pow2: "binade (2 powi e) = e"
  by (rule binade_unique) (simp_all add: power_int_strict_increasing)

lemma nearest_pos:
  assumes "2 powi e \<le> x" and "- 1022 \<le> e"
  shows "2 powi e \<le> nearest x"
proof -
  have x: "0 < x"
    using assms(1) zero_less_power_int [of "2 :: rat" e] by linarith
  have "binade (2 powi e) \<le> binade x"
    by (rule binade_mono) (use assms in simp_all)
  then have e: "e \<le> binade x" by (simp add: binade_pow2)
  then have "(2 :: rat) powi e \<le> 2 powi (binade x)"
    by (intro power_int_increasing) simp_all
  also have "\<dots> \<le> nearest x"
    by (rule nearest_lower [OF x]) (use e assms(2) in simp)
  finally show ?thesis .
qed

lemma nearest_of_int:
  assumes "0 < n" and "n < 2 ^ 53"
  shows "nearest (of_int n) = of_int n"
proof -
  let ?x = "of_int n :: rat"
  have x: "0 < ?x" using assms(1) by simp
  define e where "e = binade ?x"
  have b: "2 powi e \<le> ?x" "?x < 2 powi (e + 1)"
    using binade_bounds [OF x] by (simp_all add: e_def)
  have "binade (2 powi 0) \<le> binade ?x"
    by (rule binade_mono) (use assms(1) in simp_all)
  then have e0: "0 \<le> e" by (simp only: binade_pow2 e_def)
  have "(2 :: rat) powi e < 2 powi 53"
  proof -
    have "?x < of_int (2 ^ 53)" using assms(2) by (simp only: of_int_less_iff)
    then show ?thesis using b(1) by simp
  qed
  then have e53: "e < 53"
    by (metis not_less power_int_increasing one_le_numeral)
  have u: "(2 :: rat) powi (e - 52) * of_int (2 ^ nat (52 - e)) = 1"
  proof -
    have "(of_int (2 ^ nat (52 - e)) :: rat) = 2 powi (52 - e)"
      using e53 by (simp add: power_int_nonneg_exp)
    moreover have "(2 :: rat) powi (e - 52) * 2 powi (52 - e) = 1"
      using power_int_add [of "2 :: rat" "e - 52" "52 - e"] by simp
    ultimately show ?thesis by simp
  qed
  have pos: "(0 :: rat) < 2 powi (e - 52)" by simp
  have "?x / 2 powi (e - 52) = of_int (n * 2 ^ nat (52 - e))"
    using u pos by (simp add: field_simps)
  then have "round_half_even (?x / 2 powi (e - 52)) = n * 2 ^ nat (52 - e)"
    by (simp only: round_half_even_of_int)
  then have "of_int (round_half_even (?x / 2 powi (e - 52))) * 2 powi (e - 52) = ?x"
    using u by (simp add: mult.assoc mult.commute)
  moreover have "max (binade ?x) (- 1022) = e" using e0 by (simp add: e_def)
  ultimately show ?thesis
    by (simp add: nearest_def Let_def)
qed


lemma pow2_1024_gt: "x \<le> 2 ^ 53 \<Longrightarrow> (x :: rat) < 2 powi 1024"
proof -
  assume "x \<le> 2 ^ 53"
  also have "(2 :: rat) ^ 53 = 2 powi 53" by simp
  also have "(2 :: rat) powi 53 < 2 powi 1024"
    by (rule power_int_strict_increasing) simp_all
  finally show ?thesis .
qed

lemma round64_pos:
  assumes "0 < x" and "nearest x \<le> 2 ^ 53"
  shows "round64 x = Finite (nearest x)"
  using assms(1) pow2_1024_gt [OF assms(2)] by (simp add: round64_def)

lemma round64_of_int:
  assumes "0 \<le> n" and "n < 2 ^ 53"
  shows "round64 (of_int n) = Finite (of_int n)"
proof (cases "n = 0")
  case True
  then show ?thesis by (simp add: round64_def)
next
  case False
  with assms have n: "0 < n" by simp
  have eq: "nearest (of_int n) = of_int n" by (rule nearest_of_int [OF n assms(2)])
  have "(of_int n :: rat) \<le> of_int (2 ^ 53)" using assms(2) by (simp only: of_int_le_iff)
  then have "nearest (of_int n) \<le> 2 ^ 53" by (simp add: eq)
  from round64_pos [OF _ this] n eq show ?thesis by simp
qed

lemma nearest_1: "nearest 1 = 1"
  using nearest_of_int [of 1] by simp

lemma nearest_100: "nearest 100 = 100"
  using nearest_of_int [of 100] by simp

lemma nearest_eval:
  assumes "2 powi e \<le> x" and "x < 2 powi (e + 1)" and "- 1022 \<le> e"
    and "of_int m - 1 / 2 < x / 2 powi (e - 52)" and "x / 2 powi (e - 52) < of_int m + 1 / 2"
  shows "nearest x = of_int m * 2 powi (e - 52)"
  using nearest_eq [OF assms(1-3)] round_half_even_unique [OF assms(4,5)] by simp

text \<open>
  The percentage of \<open>b\<close> black pixels among \<open>t\<close>, for the sizes that \<open>Image.open\<close>
  lets through: the conversions of the two integers are exact, the quotient and the
  product are rounded, and the result is positive and at most 100.
\<close>

lemma percentage_pos:
  assumes "0 < b" and "b \<le> t" and "t \<le> 2 ^ 28"
  shows "\<exists>v p. true_divide b t = Finite v \<and> v = nearest (of_int b / of_int t) \<and>
               times_100 (true_divide b t) = Finite p \<and> p = nearest (v * 100) \<and>
               round64 (of_int b / of_int t) = Finite v \<and> round64 (v * 100) = Finite p \<and>
               0 < p \<and> p \<le> 100"
proof -
  let ?q = "of_int b / of_int t :: rat"
  have t: "0 < t" using assms by simp
  have b53: "b < 2 ^ 53" and t53: "t < 2 ^ 53" using assms by simp_all
  have conv: "round64 (of_int b) = Finite (of_int b)" "round64 (of_int t) = Finite (of_int t)"
    using round64_of_int assms t b53 t53 by simp_all
  have q1: "?q \<le> 1" using assms t by simp
  have q0: "0 < ?q" using assms t by simp
  have "(1 :: rat) / 2 ^ 28 \<le> 1 / of_int t"
  proof -
    have "(of_int t :: rat) \<le> of_int (2 ^ 28)" using assms(3) by (simp only: of_int_le_iff)
    then show ?thesis using t by (simp add: frac_le)
  qed
  also have "1 / of_int t \<le> ?q"
    using assms(1) t by (simp add: divide_right_mono)
  finally have qlow: "2 powi (- 28) \<le> ?q" by simp
  define v where "v = nearest ?q"
  have vlow: "2 powi (- 28) \<le> v"
    unfolding v_def by (rule nearest_pos [OF qlow]) simp
  have v1: "v \<le> 1"
    unfolding v_def using nearest_mono [OF q0 q1] by (simp add: nearest_1)
  have div: "true_divide b t = Finite v"
    using t round64_pos [OF q0] v1 by (simp add: true_divide_def conv v_def)
  have v0: "0 < v" using vlow zero_less_power_int [of "2 :: rat" "- 28"] by linarith
  have x0: "0 < v * 100" using v0 by simp
  have x100: "v * 100 \<le> 100" using v1 by simp
  have "(2 :: rat) powi (- 22) \<le> 2 powi (- 28) * 100" by simp
  also have "\<dots> \<le> v * 100" using vlow by simp
  finally have xlow: "2 powi (- 22) \<le> v * 100" .
  define p where "p = nearest (v * 100)"
  have plow: "2 powi (- 22) \<le> p"
    unfolding p_def by (rule nearest_pos [OF xlow]) simp
  have p0: "0 < p" using plow zero_less_power_int [of "2 :: rat" "- 22"] by linarith
  have p100: "p \<le> 100"
    unfolding p_def using nearest_mono [OF x0 x100] by (simp add: nearest_100)
  have r1: "round64 ?q = Finite v"
    using round64_pos [OF q0] v1 by (simp add: v_def)
  have r2: "round64 (v * 100) = Finite p"
    using round64_pos [OF x0] p100 by (simp add: p_def)
  have "times_100 (true_divide b t) = Finite p"
    using r2 by (simp add: times_100_def div)
  then show ?thesis
    using div p0 p100 r1 r2 v_def p_def by blast
qed

lemma percentage_rounded:
  assumes "0 < b" and "b \<le> t" and "t \<le> 2 ^ 28"
  shows "\<exists>v p. round64 (of_int b / of_int t) = Finite v \<and> round64 (v * 100) = Finite p \<and>
               times_100 (true_divide b t) = Finite p \<and> 0 < p \<and> p \<le> 100"
  using percentage_pos [OF assms] by blast

lemma percentage_zero:
  assumes "0 < t" and "t < 2 ^ 53"
  shows "times_100 (true_divide 0 t) = Finite 0"
proof -
  have "round64 (of_int t) = Finite (of_int t)"
    using round64_of_int [of t] assms by simp
  then show ?thesis
    using assms(1) by (simp add: true_divide_def times_100_def round64_def)
qed

lemma percentage_eval:
  assumes "0 < b" and "b \<le> t" and "t \<le> 2 ^ 28"
    and "nearest (of_int b / of_int t) = v" and "nearest (v * 100) = p"
  shows "times_100 (true_divide b t) = Finite p"
  using percentage_pos [OF assms(1-3)] assms(4,5) by auto

lemma ex_7_25: "times_100 (true_divide 7 25) = Finite (7881299347898369 / 281474976710656)"
proof -
  have a: "nearest (of_int (7 :: int) / of_int (25 :: int)) =
           of_int 5044031582654956 * 2 powi (- 2 - 52)"
    by (rule nearest_eval) simp_all
  have b: "nearest (of_int 5044031582654956 * 2 powi (- 2 - 52) * 100) =
           of_int 7881299347898369 * 2 powi (4 - 52)"
    by (rule nearest_eval) simp_all
  have "times_100 (true_divide 7 25) = Finite (of_int 7881299347898369 * 2 powi (4 - 52))"
    by (rule percentage_eval [OF _ _ _ a b]) simp_all
  then show ?thesis
    by simp
qed

lemma ex_2_12: "times_100 (true_divide 2 12) = Finite (2345624805922133 / 140737488355328)"
proof -
  have a: "nearest (of_int (2 :: int) / of_int (12 :: int)) =
           of_int 6004799503160661 * 2 powi (- 3 - 52)"
    by (rule nearest_eval) simp_all
  have b: "nearest (of_int 6004799503160661 * 2 powi (- 3 - 52) * 100) =
           of_int 4691249611844266 * 2 powi (4 - 52)"
    by (rule nearest_eval) simp_all
  have "times_100 (true_divide 2 12) = Finite (of_int 4691249611844266 * 2 powi (4 - 52))"
    by (rule percentage_eval [OF _ _ _ a b]) simp_all
  then show ?thesis
    by simp
qed

lemma ex_1500_30000: "times_100 (true_divide 1500 30000) = Finite (5)"
proof -
  have a: "nearest (of_int (1500 :: int) / of_int (30000 :: int)) =
           of_int 7205759403792794 * 2 powi (- 5 - 52)"
    by (rule nearest_eval) simp_all
  have b: "nearest (of_int 7205759403792794 * 2 powi (- 5 - 52) * 100) =
           of_int 5629499534213120 * 2 powi (2 - 52)"
    by (rule nearest_eval) simp_all
  have "times_100 (true_divide 1500 30000) = Finite (of_int 5629499534213120 * 2 powi (2 - 52))"
    by (rule percentage_eval [OF _ _ _ a b]) simp_all
  then show ?thesis
    by simp
qed

lemma ex_12000_30000: "times_100 (true_divide 12000 30000) = Finite (40)"
proof -
  have a: "nearest (of_int (12000 :: int) / of_int (30000 :: int)) =
           of_int 7205759403792794 * 2 powi (- 2 - 52)"
    by (rule nearest_eval) simp_all
  have b: "nearest (of_int 7205759403792794 * 2 powi (- 2 - 52) * 100) =
           of_int 5629499534213120 * 2 powi (5 - 52)"
    by (rule nearest_eval) simp_all
  have "times_100 (true_divide 12000 30000) = Finite (of_int 5629499534213120 * 2 powi (5 - 52))"
    by (rule percentage_eval [OF _ _ _ a b]) simp_all
  then show ?thesis
    by simp
qed

section \<open>The black pixels and their bounding box\<close>

lemma set_indices: "set (indices img) = {(r, c). r < height img \<and> c < width img}"
  by (auto simp: indices_def)

lemma distinct_indices: "distinct (indices img)"
  by (simp add: indices_def distinct_product)

lemma length_indices: "length (indices img) = height img * width img"
  by (simp add: indices_def)

lemma sum_list_count:
  "(\<Sum>(r, c) \<leftarrow> xs. if m r c then 1 else 0) = int (length (filter (\<lambda>(r, c). m r c) xs))"
  by (induction xs) auto

lemma np_sum_argwhere: "np_sum img m = int (length (np_argwhere img m))"
  by (simp add: np_sum_def np_argwhere_def sum_list_count)

lemma set_argwhere: "set (np_argwhere img (black_mask img thr)) = black_set img thr"
  by (auto simp: np_argwhere_def set_indices black_set_def)

lemma distinct_argwhere: "distinct (np_argwhere img m)"
  by (simp add: np_argwhere_def distinct_indices)

lemma length_argwhere: "length (np_argwhere img (black_mask img thr)) = card (black_set img thr)"
  using distinct_card [OF distinct_argwhere, of img "black_mask img thr"]
  by (simp add: set_argwhere)

lemma finite_black_set: "finite (black_set img thr)"
  using set_argwhere [of img thr, symmetric] by simp

lemma card_black_set_le: "card (black_set img thr) \<le> height img * width img"
proof -
  have "length (np_argwhere img (black_mask img thr)) \<le> length (indices img)"
    unfolding np_argwhere_def by (rule length_filter_le)
  then show ?thesis by (simp add: length_argwhere length_indices)
qed

lemma black_set_iff:
  "(r, c) \<in> black_set img thr \<longleftrightarrow> r < height img \<and> c < width img \<and> black_mask img thr r c"
  by (simp add: black_set_def)

lemma fold_min_Min: "fold min (map f ps) (f p) = Min (f ` set (p # ps))"
  using Min.set_eq_fold [of "f p" "map f ps"] by simp

lemma fold_max_Max: "fold max (map f ps) (f p) = Max (f ` set (p # ps))"
  using Max.set_eq_fold [of "f p" "map f ps"] by simp

lemma image_open_Inr:
  "image_open f = Inr img \<longleftrightarrow>
     f = Picture img \<and> 0 < height img \<and> 0 < width img \<and> height img * width img \<le> 178956970"
  by (auto simp: image_open_def max_image_pixels_def split: png_file.splits)

text \<open>
  What \<open>detect_black_areas\<close> returns on a picture that \<open>Image.open\<close> accepts, in closed
  form. The test of line 29 and the test of line 32 agree, so the second \<open>return\<close> is
  reached exactly when no pixel is black.
\<close>

lemma detect_black_areas_eq:
  assumes "image_open f = Inr img"
  shows "detect_black_areas f thr =
     Inr \<lparr>has_black = (black_set img thr \<noteq> {}),
          percentage = times_100 (true_divide (int (card (black_set img thr)))
                                    (int (height img) * int (width img))),
          black_pixels = int (card (black_set img thr)),
          total_pixels = int (height img) * int (width img),
          black_region = (if black_set img thr = {} then None
                          else Some (bounding_box (black_set img thr)))\<rparr>"
proof (cases "np_argwhere img (black_mask img thr)")
  case Nil
  then have "black_set img thr = {}"
    using set_argwhere [of img thr] by simp
  with Nil show ?thesis
    by (simp add: detect_black_areas_def assms Let_def np_sum_argwhere)
next
  case (Cons p ps)
  then have B: "black_set img thr = set (p # ps)"
    using set_argwhere [of img thr] by simp
  then have ne: "black_set img thr \<noteq> {}" by simp
  have pos: "0 < card (black_set img thr)"
    using ne finite_black_set [of img thr] by (simp add: card_gt_0_iff)
  have len: "1 + int (length ps) = int (card (black_set img thr))"
    using length_argwhere [of img thr] Cons by simp
  show ?thesis
    using ne pos Cons len
    by (simp add: detect_black_areas_def assms Let_def np_sum_argwhere
        fold_min_Min fold_max_Max bounding_box_def B [symmetric] del: set_simps)
qed

lemma detect_black_areas_Inr:
  assumes "detect_black_areas f thr = Inr res"
  shows "\<exists>img. image_open f = Inr img"
  using assms by (auto simp: detect_black_areas_def split: sum.splits)

lemma detect_black_areas_Picture:
  assumes "detect_black_areas (Picture img) thr = Inr res"
  shows "image_open (Picture img) = Inr img"
  using detect_black_areas_Inr [OF assms] by (auto simp: image_open_Inr)

text \<open>The number of black pixels and the number of pixels, as the division sees them.\<close>

lemma pixel_counts:
  assumes "image_open f = Inr img"
  shows "int (card (black_set img thr)) \<le> int (height img) * int (width img)"
    and "0 < int (height img) * int (width img)"
    and "int (height img) * int (width img) \<le> 2 ^ 28"
proof -
  from assms have h: "0 < height img" and w: "0 < width img"
    and n: "height img * width img \<le> 178956970"
    by (simp_all add: image_open_Inr)
  show "int (card (black_set img thr)) \<le> int (height img) * int (width img)"
    using card_black_set_le [of img thr] by (metis of_nat_mult of_nat_le_iff)
  show "0 < int (height img) * int (width img)"
    using h w by simp
  have "int (height img * width img) \<le> 178956970"
    using n by linarith
  then show "int (height img) * int (width img) \<le> 2 ^ 28"
    by simp
qed

lemma bounding_box_covers:
  assumes "finite B" "(r, c) \<in> B"
  shows "top (bounding_box B) \<le> int r \<and> int r \<le> bottom (bounding_box B) \<and>
         left (bounding_box B) \<le> int c \<and> int c \<le> right (bounding_box B)"
proof -
  have "r \<in> fst ` B" "c \<in> snd ` B"
    using assms(2) by force+
  then show ?thesis
    using assms(1) by (simp add: bounding_box_def)
qed

lemma bounding_box_touches:
  assumes "finite B" "B \<noteq> {}"
  shows "(\<exists>r c. (r, c) \<in> B \<and> int r = top (bounding_box B)) \<and>
         (\<exists>r c. (r, c) \<in> B \<and> int r = bottom (bounding_box B)) \<and>
         (\<exists>r c. (r, c) \<in> B \<and> int c = left (bounding_box B)) \<and>
         (\<exists>r c. (r, c) \<in> B \<and> int c = right (bounding_box B))"
proof -
  have fin: "finite (fst ` B)" "finite (snd ` B)" and ne: "fst ` B \<noteq> {}" "snd ` B \<noteq> {}"
    using assms by simp_all
  have "Min (fst ` B) \<in> fst ` B" "Max (fst ` B) \<in> fst ` B"
       "Min (snd ` B) \<in> snd ` B" "Max (snd ` B) \<in> snd ` B"
    using fin ne by (auto intro: Min_in Max_in)
  then show ?thesis
    by (simp add: bounding_box_def image_iff) (metis fst_conv snd_conv prod.collapse)
qed

lemma bounding_box_black_set:
  assumes ne: "black_set img thr \<noteq> {}" and box: "box = bounding_box (black_set img thr)"
  shows "(\<forall>r c. r < height img \<and> c < width img \<and> black_mask img thr r c \<longrightarrow>
               top box \<le> int r \<and> int r \<le> bottom box \<and>
               left box \<le> int c \<and> int c \<le> right box) \<and>
            (\<exists>r c. r < height img \<and> c < width img \<and> black_mask img thr r c \<and> int r = top box) \<and>
            (\<exists>r c. r < height img \<and> c < width img \<and> black_mask img thr r c \<and> int r = bottom box) \<and>
            (\<exists>r c. r < height img \<and> c < width img \<and> black_mask img thr r c \<and> int c = left box) \<and>
            (\<exists>r c. r < height img \<and> c < width img \<and> black_mask img thr r c \<and> int c = right box) \<and>
            top box \<le> bottom box \<and> left box \<le> right box \<and>
            0 \<le> top box \<and> bottom box \<le> int (height img) - 1 \<and>
            0 \<le> left box \<and> right box \<le> int (width img) - 1"
proof -
  let ?B = "black_set img thr"
  note fin = finite_black_set [of img thr]
  have covers: "top box \<le> int r \<and> int r \<le> bottom box \<and> left box \<le> int c \<and> int c \<le> right box"
    if "r < height img \<and> c < width img \<and> black_mask img thr r c" for r c
    using bounding_box_covers [OF fin, of r c] that by (simp add: black_set_iff box)
  from bounding_box_touches [OF fin ne]
  obtain r1 c1 r2 c2 r3 c3 r4 c4 where
    t: "(r1, c1) \<in> ?B" "int r1 = top box" and b: "(r2, c2) \<in> ?B" "int r2 = bottom box" and
    l: "(r3, c3) \<in> ?B" "int c3 = left box" and r: "(r4, c4) \<in> ?B" "int c4 = right box"
    unfolding box by blast
  have touch:
    "\<exists>r c. r < height img \<and> c < width img \<and> black_mask img thr r c \<and> int r = top box"
    "\<exists>r c. r < height img \<and> c < width img \<and> black_mask img thr r c \<and> int r = bottom box"
    "\<exists>r c. r < height img \<and> c < width img \<and> black_mask img thr r c \<and> int c = left box"
    "\<exists>r c. r < height img \<and> c < width img \<and> black_mask img thr r c \<and> int c = right box"
    using t b l r unfolding black_set_iff by blast+
  have order: "top box \<le> bottom box" "left box \<le> right box"
    using covers [of r1 c1] t(1) unfolding black_set_iff by linarith+
  have range: "0 \<le> top box" "bottom box \<le> int (height img) - 1"
    "0 \<le> left box" "right box \<le> int (width img) - 1"
    using t b l r unfolding black_set_iff by linarith+
  show ?thesis
    using covers touch order range by blast
qed

lemma small_picture_open: "image_open (Picture small_picture) = Inr small_picture"
  by (simp add: image_open_Inr small_picture_def)

lemma small_picture_run:
  "detect_black_areas (Picture small_picture) 10 =
     Inr \<lparr>has_black = True, percentage = Finite (2345624805922133 / 140737488355328),
          black_pixels = 2, total_pixels = 12,
          black_region = Some \<lparr>top = 1, left = 2, bottom = 1, right = 3\<rparr>\<rparr>"
proof -
  have "detect_black_areas (Picture small_picture) 10 =
     Inr \<lparr>has_black = True, percentage = times_100 (true_divide 2 12),
          black_pixels = 2, total_pixels = 12,
          black_region = Some \<lparr>top = 1, left = 2, bottom = 1, right = 3\<rparr>\<rparr>"
    by (simp add: detect_black_areas_def small_picture_open, simp add: small_picture_def
        Let_def np_sum_def np_argwhere_def indices_def black_mask_def upt_rec)
  then show ?thesis
    by (simp only: ex_2_12)
qed

text \<open>
  Claim C2. On every picture, \<open>detect_black_areas\<close> returns a bounding box exactly when
  \<open>has_black\<close> is true, which is exactly when some pixel is black. A returned box
  contains every black pixel, each of its four edges holds a black pixel, its top is at
  most its bottom and its left at most its right, and its rows lie in \<open>[0, height - 1]\<close>
  and its columns in \<open>[0, width - 1]\<close>.
\<close>

theorem C2_bounding_box:
  assumes "detect_black_areas (Picture img) thr = Inr res"
  shows "(black_region res \<noteq> None) = has_black res \<and>
         has_black res = (\<exists>r c. r < height img \<and> c < width img \<and> black_mask img thr r c) \<and>
         (\<forall>box. black_region res = Some box \<longrightarrow>
            (\<forall>r c. r < height img \<and> c < width img \<and> black_mask img thr r c \<longrightarrow>
               top box \<le> int r \<and> int r \<le> bottom box \<and>
               left box \<le> int c \<and> int c \<le> right box) \<and>
            (\<exists>r c. r < height img \<and> c < width img \<and> black_mask img thr r c \<and> int r = top box) \<and>
            (\<exists>r c. r < height img \<and> c < width img \<and> black_mask img thr r c \<and> int r = bottom box) \<and>
            (\<exists>r c. r < height img \<and> c < width img \<and> black_mask img thr r c \<and> int c = left box) \<and>
            (\<exists>r c. r < height img \<and> c < width img \<and> black_mask img thr r c \<and> int c = right box) \<and>
            top box \<le> bottom box \<and> left box \<le> right box \<and>
            0 \<le> top box \<and> bottom box \<le> int (height img) - 1 \<and>
            0 \<le> left box \<and> right box \<le> int (width img) - 1)"
    (is "_ \<and> _ \<and> (\<forall>box. _ \<longrightarrow> ?Q box)")
proof -
  let ?B = "black_set img thr"
  have res: "res = \<lparr>has_black = (?B \<noteq> {}),
          percentage = times_100 (true_divide (int (card ?B)) (int (height img) * int (width img))),
          black_pixels = int (card ?B),
          total_pixels = int (height img) * int (width img),
          black_region = (if ?B = {} then None else Some (bounding_box ?B))\<rparr>"
    using assms detect_black_areas_eq [OF detect_black_areas_Picture [OF assms], of thr]
    by simp
  have ex: "(?B \<noteq> {}) = (\<exists>r c. r < height img \<and> c < width img \<and> black_mask img thr r c)"
    by (auto simp: black_set_def)
  have a: "(black_region res \<noteq> None) = has_black res"
    by (simp add: res)
  have b: "has_black res = (\<exists>r c. r < height img \<and> c < width img \<and> black_mask img thr r c)"
    using ex by (simp add: res)
  have c: "?Q box" if "black_region res = Some box" for box
  proof -
    from that have "?B \<noteq> {}" "box = bounding_box ?B"
      by (simp_all add: res split: if_splits)
    then show ?thesis by (rule bounding_box_black_set)
  qed
  show ?thesis
  proof (rule conjI [OF a conjI [OF b]], intro allI impI)
    fix box
    assume "black_region res = Some box"
    then show "?Q box" by (rule c)
  qed
qed

theorem C2_bounding_box_witness:
  "detect_black_areas (Picture small_picture) 10 =
     Inr \<lparr>has_black = True, percentage = Finite (2345624805922133 / 140737488355328),
          black_pixels = 2, total_pixels = 12,
          black_region = Some \<lparr>top = 1, left = 2, bottom = 1, right = 3\<rparr>\<rparr> \<and>
   (\<exists>r c. r < height small_picture \<and> c < width small_picture \<and>
          black_mask small_picture 10 r c \<and> int c = 3) \<and>
   \<not> black_mask small_picture 10 0 0"
proof -
  have "\<exists>r c. r < height small_picture \<and> c < width small_picture \<and>
          black_mask small_picture 10 r c \<and> int c = 3"
    using C2_bounding_box [OF small_picture_run] by auto
  moreover have "\<not> black_mask small_picture 10 0 0"
    by (simp add: black_mask_def small_picture_def)
  ultimately show ?thesis
    using small_picture_run by simp
qed

lemma seven_of_25_run:
  "detect_black_areas (Picture seven_of_25) 10 =
     Inr \<lparr>has_black = True, percentage = Finite (7881299347898369 / 281474976710656),
          black_pixels = 7, total_pixels = 25,
          black_region = Some \<lparr>top = 0, left = 0, bottom = 1, right = 4\<rparr>\<rparr>"
proof -
  have op: "image_open (Picture seven_of_25) = Inr seven_of_25"
    by (simp add: image_open_Inr seven_of_25_def)
  have "detect_black_areas (Picture seven_of_25) 10 =
     Inr \<lparr>has_black = True, percentage = times_100 (true_divide 7 25),
          black_pixels = 7, total_pixels = 25,
          black_region = Some \<lparr>top = 0, left = 0, bottom = 1, right = 4\<rparr>\<rparr>"
    by (simp add: detect_black_areas_def op, simp add: seven_of_25_def
        Let_def np_sum_def np_argwhere_def indices_def black_mask_def upt_rec)
  then show ?thesis
    by (simp only: ex_7_25)
qed

text \<open>
  Claim C3, as the script has it. On every picture that is analysed, and for every
  threshold, the pixels counted as black are exactly those whose three channels are all
  strictly below the threshold (\<open>main\<close> passes the default 10). The percentage is the
  \<open>float64\<close> value of \<open>(black_pixels / total_pixels) * 100\<close>: the quotient rounded to the
  nearest \<open>float64\<close>, times 100, rounded again. It lies between 0 and 100, and it is 0
  exactly when no pixel is black, in which case \<open>has_black\<close> is false and no region is
  returned.
\<close>

theorem C3_percentage_rounded:
  assumes "detect_black_areas (Picture img) thr = Inr res"
  shows "black_pixels res =
           int (card {(r, c). r < height img \<and> c < width img \<and>
                  (case px img r c of (cr, cg, cb) \<Rightarrow>
                     uint cr < thr \<and> uint cg < thr \<and> uint cb < thr)}) \<and>
         total_pixels res = int (width img) * int (height img) \<and>
         (\<exists>v p. round64 (of_int (black_pixels res) / of_int (total_pixels res)) = Finite v \<and>
                round64 (v * 100) = Finite p \<and>
                percentage res = Finite p \<and>
                0 \<le> p \<and> p \<le> 100 \<and> (p = 0) = (black_pixels res = 0)) \<and>
         (black_pixels res = 0 \<longrightarrow> \<not> has_black res \<and> black_region res = None)"
proof -
  let ?B = "black_set img thr"
  let ?n = "int (card ?B)"
  let ?t = "int (height img) * int (width img)"
  note op = detect_black_areas_Picture [OF assms]
  have res: "res = \<lparr>has_black = (?B \<noteq> {}),
          percentage = times_100 (true_divide ?n ?t),
          black_pixels = ?n, total_pixels = ?t,
          black_region = (if ?B = {} then None else Some (bounding_box ?B))\<rparr>"
    using assms detect_black_areas_eq [OF op, of thr] by simp
  have B: "?B = {(r, c). r < height img \<and> c < width img \<and>
                  (case px img r c of (cr, cg, cb) \<Rightarrow>
                     uint cr < thr \<and> uint cg < thr \<and> uint cb < thr)}"
    by (simp add: black_set_def black_mask_def)
  note counts = pixel_counts [OF op]
  have empty: "?n = 0 \<longrightarrow> ?B = {}"
    using finite_black_set [of img thr] by simp
  have pct: "\<exists>v p. round64 (of_int ?n / of_int ?t) = Finite v \<and>
                round64 (v * 100) = Finite p \<and>
                times_100 (true_divide ?n ?t) = Finite p \<and>
                0 \<le> p \<and> p \<le> 100 \<and> (p = 0) = (?n = 0)"
  proof (cases "?n = 0")
    case True
    have "times_100 (true_divide 0 ?t) = Finite 0"
      by (rule percentage_zero) (use counts in simp_all)
    moreover have "round64 (of_int 0 / of_int ?t) = Finite 0" "round64 (0 * 100) = Finite 0"
      by (simp_all add: round64_def)
    ultimately show ?thesis
      using True by (intro exI [of _ 0] exI [of _ 0]) simp
  next
    case False
    then have n: "0 < ?n" by simp
    from percentage_rounded [OF n counts(1) counts(3)] obtain v p where
      "round64 (of_int ?n / of_int ?t) = Finite v" "round64 (v * 100) = Finite p"
      "times_100 (true_divide ?n ?t) = Finite p" "0 < p" "p \<le> 100"
      by blast
    then show ?thesis
      using False by (intro exI [of _ v] exI [of _ p]) simp
  qed
  show ?thesis
    using pct empty unfolding B [symmetric]
    by (simp add: res mult.commute)
qed

theorem C3_percentage_rounded_witness:
  "detect_black_areas (Picture small_picture) 10 =
     Inr \<lparr>has_black = True, percentage = Finite (2345624805922133 / 140737488355328),
          black_pixels = 2, total_pixels = 12,
          black_region = Some \<lparr>top = 1, left = 2, bottom = 1, right = 3\<rparr>\<rparr> \<and>
   int (card {(r, c). r < height small_picture \<and> c < width small_picture \<and>
                  (case px small_picture r c of (cr, cg, cb) \<Rightarrow>
                     uint cr < 10 \<and> uint cg < 10 \<and> uint cb < 10)}) = 2"
  using C3_percentage_rounded [OF small_picture_run] small_picture_run by simp

text \<open>
  The claim as it was stated gives the percentage as \<open>100 * black / (width * height)\<close>.
  On a picture of 25 pixels of which 7 are black that is 28, also when it is evaluated
  in \<open>float64\<close> in that order; the script returns the next \<open>float64\<close> above 28.
\<close>

theorem C3_seven_of_25_counterexample:
  "detect_black_areas (Picture seven_of_25) 10 =
     Inr \<lparr>has_black = True, percentage = Finite (7881299347898369 / 281474976710656),
          black_pixels = 7, total_pixels = 25,
          black_region = Some \<lparr>top = 0, left = 0, bottom = 1, right = 4\<rparr>\<rparr> \<and>
   Finite (7881299347898369 / 281474976710656) \<noteq> Finite (100 * 7 / 25) \<and>
   fdiv (fmul (Finite 100) (round64 7)) (round64 25) = Finite 28"
proof -
  have "round64 (of_int 7) = Finite (of_int 7)" "round64 (of_int 25) = Finite (of_int 25)"
    "round64 (of_int 700) = Finite (of_int 700)" "round64 (of_int 28) = Finite (of_int 28)"
    by (rule round64_of_int; simp)+
  then have "fdiv (fmul (Finite 100) (round64 7)) (round64 25) = Finite 28"
    by simp
  then show ?thesis
    using seven_of_25_run by simp
qed

text \<open>
  Claim C4. \<open>detect_black_areas\<close> never divides by zero. On a file whose picture has
  height 0 or width 0 it fails at line 17, where \<open>Image.open\<close> raises (the error the
  spec calls \<open>InvalidImageError\<close>), before the division of line 26. Whenever it returns,
  the picture has at least one row and one column, the divisor \<open>total_pixels\<close> is their
  product and positive, and the percentage is a finite number. A picture with at least
  one row and one column is either analysed in this way or refused by \<open>Image.open\<close> for
  its size.
\<close>

theorem C4_no_division_by_zero:
  "(height img = 0 \<or> width img = 0 \<longrightarrow>
      detect_black_areas (Picture img) thr = Inl UnidentifiedImageError) \<and>
   (\<forall>res. detect_black_areas (Picture img) thr = Inr res \<longrightarrow>
      1 \<le> height img \<and> 1 \<le> width img \<and>
      total_pixels res = int (height img) * int (width img) \<and>
      0 < total_pixels res \<and> (\<exists>q. percentage res = Finite q)) \<and>
   (1 \<le> height img \<and> 1 \<le> width img \<longrightarrow>
      (\<exists>res. detect_black_areas (Picture img) thr = Inr res) \<or>
      detect_black_areas (Picture img) thr = Inl DecompressionBombError)"
proof -
  have zero: "detect_black_areas (Picture img) thr = Inl UnidentifiedImageError"
    if "height img = 0 \<or> width img = 0"
    using that by (auto simp: detect_black_areas_def image_open_def)
  have returned: "1 \<le> height img \<and> 1 \<le> width img \<and>
      total_pixels res = int (height img) * int (width img) \<and>
      0 < total_pixels res \<and> (\<exists>q. percentage res = Finite q)"
    if run: "detect_black_areas (Picture img) thr = Inr res" for res
  proof -
    note op = detect_black_areas_Picture [OF run]
    let ?n = "int (card (black_set img thr))"
    let ?t = "int (height img) * int (width img)"
    have res: "percentage res = times_100 (true_divide ?n ?t)" "total_pixels res = ?t"
      using run detect_black_areas_eq [OF op, of thr] by auto
    note counts = pixel_counts [OF op]
    have "\<exists>q. times_100 (true_divide ?n ?t) = Finite q"
    proof (cases "?n = 0")
      case True
      have "times_100 (true_divide 0 ?t) = Finite 0"
        by (rule percentage_zero) (use counts in simp_all)
      then show ?thesis using True by simp
    next
      case False
      then have "0 < ?n" by simp
      from percentage_rounded [OF this counts(1) counts(3)] show ?thesis by blast
    qed
    then show ?thesis
      using op counts(2) by (simp add: res image_open_Inr)
  qed
  have positive: "(\<exists>res. detect_black_areas (Picture img) thr = Inr res) \<or>
      detect_black_areas (Picture img) thr = Inl DecompressionBombError"
    if "1 \<le> height img \<and> 1 \<le> width img"
    using that by (auto simp: detect_black_areas_def image_open_def Let_def)
  show ?thesis
    using zero returned positive by blast
qed

theorem C4_no_division_by_zero_witness:
  "detect_black_areas (Picture \<lparr>height = 0, width = 800, px = (\<lambda>r c. (0, 0, 0))\<rparr>) 10 =
     Inl UnidentifiedImageError \<and>
   detect_black_areas (Picture small_picture) 10 =
     Inr \<lparr>has_black = True, percentage = Finite (2345624805922133 / 140737488355328),
          black_pixels = 2, total_pixels = 12,
          black_region = Some \<lparr>top = 1, left = 2, bottom = 1, right = 3\<rparr>\<rparr> \<and>
   1 \<le> height small_picture \<and> 1 \<le> width small_picture"
proof -
  have "detect_black_areas (Picture \<lparr>height = 0, width = 800, px = (\<lambda>r c. (0, 0, 0))\<rparr>) 10 =
     Inl UnidentifiedImageError"
    using C4_no_division_by_zero
      [of "\<lparr>height = 0, width = 800, px = (\<lambda>r c. (0, 0, 0))\<rparr>" 10] by simp
  moreover have "1 \<le> height small_picture \<and> 1 \<le> width small_picture"
    using C4_no_division_by_zero [of small_picture 10] small_picture_run by blast
  ultimately show ?thesis
    using small_picture_run by simp
qed

section \<open>The loop, the sort and the summary\<close>

lemma analyzed_append: "analyzed (xs @ ys) = analyzed xs @ analyzed ys"
  by (induction xs rule: analyzed.induct) simp_all

lemma has_black_percentage:
  assumes "detect_black_areas f thr = Inr res" and "has_black res"
  shows "\<exists>q. percentage res = Finite q \<and> 0 < q \<and> q \<le> 100"
proof -
  from detect_black_areas_Inr [OF assms(1)] obtain img where op: "image_open f = Inr img" ..
  let ?B = "black_set img thr"
  let ?n = "int (card ?B)"
  let ?t = "int (height img) * int (width img)"
  have res: "percentage res = times_100 (true_divide ?n ?t)" and ne: "?B \<noteq> {}"
    using assms detect_black_areas_eq [OF op, of thr] by auto
  have n: "0 < ?n"
    using ne finite_black_set [of img thr] by (simp add: card_gt_0_iff)
  note counts = pixel_counts [OF op]
  from percentage_rounded [OF n counts(1) counts(3)]
  show ?thesis
    unfolding res by blast
qed

lemma loop_body_Inr:
  assumes "loop_body cont f s = Inr s'"
  shows "analyzed (stdout s') = analyzed (stdout s) @ [f] \<and>
         (\<exists>new. issues_found s' = issues_found s @ new \<and>
                set (map issue_file new) \<subseteq> {f} \<and> length new \<le> 1 \<and>
                (\<forall>i \<in> set new. \<exists>q. black_percentage i = Finite q \<and> 0 < q \<and> q \<le> 100))"
  using assms has_black_percentage [of "cont f" 10]
  by (auto simp: loop_body_def Let_def print_def analyzed_append
      split: sum.splits option.splits if_splits prod.splits)

lemma sorted_same: "set xs \<subseteq> {x} \<Longrightarrow> sorted xs"
  by (induction xs) auto

lemma analyze_loop_Inr:
  assumes "analyze_loop cont fs s = Inr s'"
  shows "analyzed (stdout s') = analyzed (stdout s) @ fs \<and>
         (\<exists>new. issues_found s' = issues_found s @ new \<and>
                set (map issue_file new) \<subseteq> set fs \<and>
                (sorted fs \<longrightarrow> sorted (map issue_file new)) \<and>
                (\<forall>i \<in> set new. \<exists>q. black_percentage i = Finite q \<and> 0 < q \<and> q \<le> 100))"
  using assms
proof (induction fs arbitrary: s)
  case Nil
  then show ?case by simp
next
  case (Cons f rest)
  from Cons.prems obtain s1 where
    body: "loop_body cont f s = Inr s1" and tail: "analyze_loop cont rest s1 = Inr s'"
    by (auto split: sum.splits)
  from loop_body_Inr [OF body] obtain n1 where
    out1: "analyzed (stdout s1) = analyzed (stdout s) @ [f]" and
    n1: "issues_found s1 = issues_found s @ n1" "set (map issue_file n1) \<subseteq> {f}"
      "\<forall>i \<in> set n1. \<exists>q. black_percentage i = Finite q \<and> 0 < q \<and> q \<le> 100"
    by blast
  from Cons.IH [OF tail] obtain n2 where
    out2: "analyzed (stdout s') = analyzed (stdout s1) @ rest" and
    n2: "issues_found s' = issues_found s1 @ n2" "set (map issue_file n2) \<subseteq> set rest"
      "sorted rest \<longrightarrow> sorted (map issue_file n2)"
      "\<forall>i \<in> set n2. \<exists>q. black_percentage i = Finite q \<and> 0 < q \<and> q \<le> 100"
    by blast
  have "sorted (map issue_file (n1 @ n2))" if "sorted (f # rest)"
  proof -
    have "sorted (map issue_file n2)" and le: "\<forall>y \<in> set rest. f \<le> y"
      using that n2(3) by simp_all
    moreover have "sorted (map issue_file n1)"
      using n1(2) by (rule sorted_same)
    ultimately show ?thesis
      using n1(2) n2(2) by (fastforce simp: sorted_append)
  qed
  then show ?case
    using out1 out2 n1 n2 by (intro conjI exI [of _ "n1 @ n2"]) auto
qed

lemma mset_list_sort_reverse: "mset (list_sort_reverse k xs) = mset xs"
  by (simp add: list_sort_reverse_def)

lemma set_list_sort_reverse: "set (list_sort_reverse k xs) = set xs"
  by (simp add: list_sort_reverse_def)

lemma length_list_sort_reverse: "length (list_sort_reverse k xs) = length xs"
  by (simp add: list_sort_reverse_def)

lemma list_sort_reverse_Nil: "(list_sort_reverse k xs = []) = (xs = [])"
  using length_list_sort_reverse [of k xs] by (metis length_0_conv)

lemma sorted_list_sort_reverse: "sorted_wrt (\<lambda>a b. k b \<le> k a) (list_sort_reverse k xs)"
proof -
  have "sorted_wrt (\<lambda>a b. k a \<le> k b) (sort_key k (rev xs))"
    using sorted_sort_key [of k "rev xs"] by (simp add: sorted_map)
  then show ?thesis
    by (simp add: list_sort_reverse_def sorted_wrt_rev)
qed

lemma stable_list_sort_reverse:
  "filter (\<lambda>y. k y = c) (list_sort_reverse k xs) = filter (\<lambda>y. k y = c) xs"
proof -
  have "filter (\<lambda>y. k y = c) (list_sort_reverse k xs) =
        rev (filter (\<lambda>y. k y = c) (sort_key k (rev xs)))"
    by (simp add: list_sort_reverse_def rev_filter)
  also have "\<dots> = rev (filter (\<lambda>y. k y = c) (rev xs))"
    by (simp only: sort_key_stable)
  also have "\<dots> = filter (\<lambda>y. k y = c) xs"
    by (simp add: rev_filter)
  finally show ?thesis .
qed

lemma summary_eq:
  "summary s =
     (\<lparr>stdout = stdout s @ report (issues_found s),
       issues_found = list_sort_reverse black_percentage (issues_found s)\<rparr>,
      issues_found s = [])"
  by (cases "issues_found s = []")
    (simp_all add: summary_def report_def Let_def print_def list_sort_reverse_Nil,
     simp add: list_sort_reverse_def)

lemma main_Returned:
  assumes "main p = (s, Returned ok)"
  shows "\<exists>d sc. p = Dir d \<and> list_screenshots d \<noteq> [] \<and>
           analyze_loop (contents d) (list_screenshots d)
             (print (Analyzing_count (length (list_screenshots d))) init) = Inr sc \<and>
           summary sc = (s, ok)"
  using assms
  by (auto simp: main_def Let_def split: path_state.splits if_splits sum.splits prod.splits)








lemma main_Returned_eq:
  assumes "main p = (s, Returned ok)"
  shows "\<exists>d sc. p = Dir d \<and> list_screenshots d \<noteq> [] \<and>
           analyze_loop (contents d) (list_screenshots d)
             (print (Analyzing_count (length (list_screenshots d))) init) = Inr sc \<and>
           s = \<lparr>stdout = stdout sc @ report (issues_found sc),
                 issues_found = list_sort_reverse black_percentage (issues_found sc)\<rparr> \<and>
           ok = (issues_found sc = [])"
  using main_Returned [OF assms] by (auto simp: summary_eq)

lemma analyzed_top_lines: "analyzed (top_lines issues) = []"
proof -
  have "analyzed (concat (map (\<lambda>(i, issue).
                    [Top_issue (i + 1) (issue_file issue) (black_percentage issue),
                     Top_region (top (issue_region issue)) (left (issue_region issue))
                       (bottom (issue_region issue)) (right (issue_region issue))]) ps)) = []"
    for ps :: "(nat \<times> issue) list"
    by (induction ps) auto
  then show ?thesis
    by (simp only: top_lines_def)
qed

lemma analyzed_report: "analyzed (report issues) = []"
  by (simp add: report_def analyzed_append analyzed_top_lines)


text \<open>
  Claim C5. In every run that reaches the summary, the files are processed in ascending
  lexicographic order of their names (the sorted list of the names that end in
  \<open>.png\<close>). The final issue list is the list collected by the loop, which is in that
  processing order, sorted once by \<open>list_sort_reverse\<close>: it has the same entries, it is
  non-increasing in \<open>black_percentage\<close>, and the entries with equal \<open>black_percentage\<close>
  keep the order they were collected in, hence ascending file names. Every percentage in
  it is finite, so the order used is the order of the numbers.
\<close>

theorem C5_order:
  assumes "main (Dir d) = (s, Returned ok)"
  shows "analyzed (stdout s) = sort (filter (\<lambda>f. suffix ''.png'' f) (listing d)) \<and>
         (\<exists>collected.
            analyze_loop (contents d) (list_screenshots d)
              (print (Analyzing_count (length (list_screenshots d))) init) = Inr collected \<and>
            sorted (map issue_file (issues_found collected)) \<and>
            issues_found s = list_sort_reverse black_percentage (issues_found collected) \<and>
            mset (issues_found s) = mset (issues_found collected) \<and>
            (\<forall>k. filter (\<lambda>i. black_percentage i = k) (issues_found s) =
                 filter (\<lambda>i. black_percentage i = k) (issues_found collected))) \<and>
         sorted_wrt (\<lambda>a b. black_percentage b \<le> black_percentage a) (issues_found s) \<and>
         (\<forall>k. sorted (map issue_file (filter (\<lambda>i. black_percentage i = k) (issues_found s)))) \<and>
         (\<forall>i \<in> set (issues_found s). \<exists>q. black_percentage i = Finite q \<and> 0 < q \<and> q \<le> 100)"
proof -
  let ?fs = "list_screenshots d"
  let ?s0 = "print (Analyzing_count (length ?fs)) init"
  from main_Returned_eq [OF assms] obtain sc where
    loop: "analyze_loop (contents d) ?fs ?s0 = Inr sc" and
    s: "s = \<lparr>stdout = stdout sc @ report (issues_found sc),
              issues_found = list_sort_reverse black_percentage (issues_found sc)\<rparr>"
    by auto
  have sorted_fs: "sorted ?fs"
    by (simp add: list_screenshots_def)
  from analyze_loop_Inr [OF loop] sorted_fs obtain new where
    out: "analyzed (stdout sc) = analyzed (stdout ?s0) @ ?fs" and
    new: "issues_found sc = issues_found ?s0 @ new" "sorted (map issue_file new)"
      "\<forall>i \<in> set new. \<exists>q. black_percentage i = Finite q \<and> 0 < q \<and> q \<le> 100"
    by blast
  have coll: "issues_found sc = new"
    using new(1) by (simp add: print_def init_def)
  have a: "analyzed (stdout s) = sort (filter (\<lambda>f. suffix ''.png'' f) (listing d))"
    using out by (simp add: s analyzed_append analyzed_report print_def init_def
        list_screenshots_def)
  have fin: "issues_found s = list_sort_reverse black_percentage (issues_found sc)"
    by (simp add: s)
  have st: "filter (\<lambda>i. black_percentage i = k) (issues_found s) =
            filter (\<lambda>i. black_percentage i = k) (issues_found sc)" for k
    unfolding fin by (rule stable_list_sort_reverse)
  have ties: "sorted (map issue_file (filter (\<lambda>i. black_percentage i = k) (issues_found s)))"
    for k
    unfolding st coll using new(2) by (rule sorted_filter)
  have desc: "sorted_wrt (\<lambda>a b. black_percentage b \<le> black_percentage a) (issues_found s)"
    unfolding fin by (rule sorted_list_sort_reverse)
  have finite: "\<forall>i \<in> set (issues_found s). \<exists>q. black_percentage i = Finite q \<and> 0 < q \<and> q \<le> 100"
    using new(3) by (simp add: fin set_list_sort_reverse coll)
  have b: "\<exists>collected.
            analyze_loop (contents d) ?fs ?s0 = Inr collected \<and>
            sorted (map issue_file (issues_found collected)) \<and>
            issues_found s = list_sort_reverse black_percentage (issues_found collected) \<and>
            mset (issues_found s) = mset (issues_found collected) \<and>
            (\<forall>k. filter (\<lambda>i. black_percentage i = k) (issues_found s) =
                 filter (\<lambda>i. black_percentage i = k) (issues_found collected))"
    using loop new(2) fin st by (intro exI [of _ sc]) (simp add: coll mset_list_sort_reverse)
  show ?thesis
    using a b desc ties finite by blast
qed

text \<open>
  Claim C6. In every run that reaches the end of \<open>main\<close>, the returned flag is true
  exactly when the issue list is empty, and the exit status is 0 when the flag is true
  and 1 otherwise.
\<close>

theorem C6_verdict:
  assumes "main p = (s, Returned ok)"
  shows "ok = (issues_found s = []) \<and>
         exit_status (main p) = (if ok then 0 else 1) \<and>
         (exit_status (main p) = 0) = ok"
  using main_Returned_eq [OF assms] assms
  by (auto simp: exit_status_def list_sort_reverse_Nil)

text \<open>
  Claim C7. When the directory is missing, or no name in it ends in \<open>.png\<close>, the run
  prints its message and ends by \<open>sys.exit(1)\<close>, which is how the script signals that
  there are no screenshots. No file is analysed: nothing is announced, no issue is
  recorded and the run does not depend on what the files hold. The exit status 1 differs
  from the status of every run that returns with no issue found, which is 0.
\<close>

theorem C7_no_screenshots:
  assumes "p = Absent \<or> (\<exists>d. p = Dir d \<and> (\<forall>f \<in> set (listing d). \<not> suffix ''.png'' f))"
  shows "snd (main p) = SysExit 1 \<and>
         exit_status (main p) = 1 \<and>
         (stdout (fst (main p)) = [Dir_not_found, Run_hint] \<or>
          stdout (fst (main p)) = [No_screenshots]) \<and>
         analyzed (stdout (fst (main p))) = [] \<and>
         issues_found (fst (main p)) = [] \<and>
         (\<forall>d c. p = Dir d \<longrightarrow> main (Dir (d\<lparr>contents := c\<rparr>)) = main p) \<and>
         (\<forall>p' s'. main p' = (s', Returned True) \<longrightarrow> exit_status (main p') \<noteq> exit_status (main p))"
proof -
  have none: "list_screenshots d = []" if "\<forall>f \<in> set (listing d). \<not> suffix ''.png'' f" for d
    using that by (simp add: list_screenshots_def filter_empty_conv)
  have st: "exit_status (main p) = 1"
    using assms none by (auto simp: main_def exit_status_def Let_def)
  have "exit_status (main p') = 0" if "main p' = (s', Returned True)" for p' s'
    using that by (simp add: exit_status_def)
  then have diff: "\<forall>p' s'. main p' = (s', Returned True) \<longrightarrow> exit_status (main p') \<noteq> exit_status (main p)"
    using st by simp
  have rest: "snd (main p) = SysExit 1 \<and>
         (stdout (fst (main p)) = [Dir_not_found, Run_hint] \<or>
          stdout (fst (main p)) = [No_screenshots]) \<and>
         analyzed (stdout (fst (main p))) = [] \<and>
         issues_found (fst (main p)) = [] \<and>
         (\<forall>d c. p = Dir d \<longrightarrow> main (Dir (d\<lparr>contents := c\<rparr>)) = main p)"
    using assms none by (auto simp: main_def Let_def print_def init_def list_screenshots_def)
  show ?thesis
    using st diff rest by blast
qed


lemma Min_Max_interval: "a \<le> b \<Longrightarrow> Min {a..b} = a \<and> Max {a..b} = (b :: nat)"
  by (auto intro!: Min_eqI Max_eqI)

lemma block_picture_run:
  assumes "r0 \<le> r1" "r1 < h" "c0 \<le> c1" "c1 < w" "h * w \<le> 178956970"
  shows "detect_black_areas (Picture (block_picture h w r0 r1 c0 c1)) 10 =
           Inr \<lparr>has_black = True,
                percentage = times_100 (true_divide (int ((r1 - r0 + 1) * (c1 - c0 + 1)))
                                          (int h * int w)),
                black_pixels = int ((r1 - r0 + 1) * (c1 - c0 + 1)),
                total_pixels = int h * int w,
                black_region = Some \<lparr>top = int r0, left = int c0, bottom = int r1, right = int c1\<rparr>\<rparr>"
proof -
  let ?img = "block_picture h w r0 r1 c0 c1"
  have B: "black_set ?img 10 = {r0..r1} \<times> {c0..c1}"
    using assms by (auto simp: black_set_def black_mask_def block_picture_def)
  have dims: "height ?img = h" "width ?img = w"
    by (simp_all add: block_picture_def)
  have op: "image_open (Picture ?img) = Inr ?img"
    using assms by (simp add: image_open_Inr dims)
  have ne: "{r0..r1} \<times> {c0..c1} \<noteq> {}"
    using assms by simp
  have card: "card ({r0..r1} \<times> {c0..c1}) = (r1 - r0 + 1) * (c1 - c0 + 1)"
    using assms by (simp add: card_cartesian_product Suc_diff_le)
  have f: "fst ` ({r0..r1} \<times> {c0..c1}) = {r0..r1}" and s: "snd ` ({r0..r1} \<times> {c0..c1}) = {c0..c1}"
    using assms by (auto simp: image_iff)
  have box: "bounding_box ({r0..r1} \<times> {c0..c1}) =
               \<lparr>top = int r0, left = int c0, bottom = int r1, right = int c1\<rparr>"
    using assms by (simp add: bounding_box_def f s Min_Max_interval)
  show ?thesis
    unfolding detect_black_areas_eq [OF op] B dims card box using ne by simp
qed

section \<open>Three runs\<close>

text \<open>
  The run on \<open>example_dir\<close> finds two issues and sorts them; the run on \<open>clean_dir\<close>
  finds none; the run on \<open>empty_dir\<close> has no screenshot to analyse.
\<close>

lemma example_screenshots:
  "list_screenshots example_dir = [''edge_1.png'', ''menu.png'', ''zoom_2.png'']"
  by (simp add: list_screenshots_def example_dir_def suffix_to_prefix)

lemma example_edge:
  "detect_black_areas (contents example_dir ''edge_1.png'') 10 =
     Inr \<lparr>has_black = True, percentage = Finite 5, black_pixels = 1500, total_pixels = 30000,
          black_region = Some \<lparr>top = 50, left = 200, bottom = 99, right = 229\<rparr>\<rparr>"
  by (simp add: example_dir_def block_picture_run ex_1500_30000 ex_12000_30000)

lemma example_zoom:
  "detect_black_areas (contents example_dir ''zoom_2.png'') 10 =
     Inr \<lparr>has_black = True, percentage = Finite 40, black_pixels = 12000, total_pixels = 30000,
          black_region = Some \<lparr>top = 0, left = 100, bottom = 99, right = 219\<rparr>\<rparr>"
  by (simp add: example_dir_def block_picture_run ex_1500_30000 ex_12000_30000)

lemma example_menu:
  "detect_black_areas (contents example_dir ''menu.png'') 10 =
     Inr \<lparr>has_black = True, percentage = Finite (2345624805922133 / 140737488355328), black_pixels = 2,
          total_pixels = 12,
          black_region = Some \<lparr>top = 1, left = 2, bottom = 1, right = 3\<rparr>\<rparr>"
  by (simp add: example_dir_def small_picture_run)

lemma example_regions:
  "analyze_ui_regions (contents example_dir ''edge_1.png'') =
     Inr (\<lparr>header = \<lparr>top = 0, left = 0, bottom = 60, right = 300\<rparr>,
           sidebar = \<lparr>top = 60, left = 0, bottom = 100, right = 200\<rparr>\<rparr>, (300, 100))"
  "analyze_ui_regions (contents example_dir ''zoom_2.png'') =
     Inr (\<lparr>header = \<lparr>top = 0, left = 0, bottom = 60, right = 300\<rparr>,
           sidebar = \<lparr>top = 60, left = 0, bottom = 100, right = 200\<rparr>\<rparr>, (300, 100))"
  "analyze_ui_regions (contents example_dir ''menu.png'') =
     Inr (\<lparr>header = \<lparr>top = 0, left = 0, bottom = 60, right = 4\<rparr>,
           sidebar = \<lparr>top = 60, left = 0, bottom = 3, right = 200\<rparr>\<rparr>, (4, 3))"
  by (simp_all add: example_dir_def analyze_ui_regions_def image_open_def max_image_pixels_def
      block_picture_def small_picture_def)

lemma example_loop:
  "analyze_loop (contents example_dir) [''edge_1.png'', ''menu.png'', ''zoom_2.png'']
     (print (Analyzing_count (length [''edge_1.png'', ''menu.png'', ''zoom_2.png''])) init) =
   Inr \<lparr>stdout =
          [Analyzing_count 3,
           Analyzing ''edge_1.png'', Black_detected (Finite 5),
           Black_in_game_view \<lparr>top = 50, left = 200, bottom = 99, right = 229\<rparr>,
           Analyzing ''menu.png'', Black_detected (Finite (2345624805922133 / 140737488355328)), Black_only_ui,
           Analyzing ''zoom_2.png'', Black_detected (Finite 40),
           Black_in_game_view \<lparr>top = 0, left = 100, bottom = 99, right = 219\<rparr>],
        issues_found = [example_issue_edge, example_issue_zoom]\<rparr>"
  by (simp add: loop_body_def example_edge example_zoom example_menu example_regions
      game_area_black_def print_def init_def Let_def example_issue_edge_def
      example_issue_zoom_def)

lemma example_sort:
  "list_sort_reverse black_percentage [example_issue_edge, example_issue_zoom] =
     [example_issue_zoom, example_issue_edge]"
  by (simp add: list_sort_reverse_def example_issue_edge_def example_issue_zoom_def)

lemma example_patterns:
  "edge_issues [example_issue_zoom, example_issue_edge] = [example_issue_edge]"
  "zoom_issues [example_issue_zoom, example_issue_edge] = [example_issue_zoom]"
  by (code_simp)+

lemma example_top_lines:
  "top_lines [example_issue_zoom, example_issue_edge] =
     [Top_issue 1 ''zoom_2.png'' (Finite 40), Top_region 0 100 99 219,
      Top_issue 2 ''edge_1.png'' (Finite 5), Top_region 50 200 99 229]"
  by (simp add: top_lines_def enumerate_eq_zip upt_rec example_issue_edge_def
      example_issue_zoom_def)

lemma example_summary:
  "summary \<lparr>stdout =
          [Analyzing_count 3,
           Analyzing ''edge_1.png'', Black_detected (Finite 5),
           Black_in_game_view \<lparr>top = 50, left = 200, bottom = 99, right = 229\<rparr>,
           Analyzing ''menu.png'', Black_detected (Finite (2345624805922133 / 140737488355328)), Black_only_ui,
           Analyzing ''zoom_2.png'', Black_detected (Finite 40),
           Black_in_game_view \<lparr>top = 0, left = 100, bottom = 99, right = 219\<rparr>],
        issues_found = [example_issue_edge, example_issue_zoom]\<rparr> = (example_final, False)"
  by (simp add: summary_eq report_def example_sort example_patterns example_top_lines
      example_final_def)

lemma example_run: "main (Dir example_dir) = (example_final, Returned False)"
proof -
  have "list_screenshots example_dir \<noteq> []"
    by (simp add: example_screenshots)
  moreover note example_loop [folded example_screenshots] example_summary
  ultimately show ?thesis
    by (simp add: main_def Let_def)
qed

lemma clean_run: "main (Dir clean_dir) = (clean_final, Returned True)"
  by (simp add: main_def list_screenshots_def clean_dir_def suffix_to_prefix loop_body_def
      small_picture_run analyze_ui_regions_small game_area_black_def print_def init_def
      Let_def summary_eq report_def list_sort_reverse_def clean_final_def)

theorem C5_order_witness:
  "main (Dir example_dir) = (example_final, Returned False) \<and>
   analyzed (stdout example_final) = [''edge_1.png'', ''menu.png'', ''zoom_2.png''] \<and>
   sort (filter (\<lambda>f. suffix ''.png'' f) (listing example_dir)) =
     [''edge_1.png'', ''menu.png'', ''zoom_2.png''] \<and>
   map black_percentage (issues_found example_final) = [Finite 40, Finite 5] \<and>
   sorted_wrt (\<lambda>a b. black_percentage b \<le> black_percentage a) (issues_found example_final)"
proof -
  have "sorted_wrt (\<lambda>a b. black_percentage b \<le> black_percentage a) (issues_found example_final)"
    and "analyzed (stdout example_final) =
         sort (filter (\<lambda>f. suffix ''.png'' f) (listing example_dir))"
    using C5_order [OF example_run] by blast+
  moreover have "analyzed (stdout example_final) = [''edge_1.png'', ''menu.png'', ''zoom_2.png'']"
    by (simp add: example_final_def)
  moreover have "map black_percentage (issues_found example_final) = [Finite 40, Finite 5]"
    by (simp add: example_final_def example_issue_edge_def example_issue_zoom_def)
  ultimately show ?thesis
    using example_run by simp
qed

theorem C6_verdict_witness:
  "main (Dir example_dir) = (example_final, Returned False) \<and>
   issues_found example_final \<noteq> [] \<and> exit_status (main (Dir example_dir)) = 1 \<and>
   main (Dir clean_dir) = (clean_final, Returned True) \<and>
   issues_found clean_final = [] \<and> exit_status (main (Dir clean_dir)) = 0"
  using C6_verdict [OF example_run] C6_verdict [OF clean_run] example_run clean_run
  by simp

theorem C7_no_screenshots_witness:
  "\<not> suffix ''.png'' ''notes.txt'' \<and>
   main Absent = (\<lparr>stdout = [Dir_not_found, Run_hint], issues_found = []\<rparr>, SysExit 1) \<and>
   main (Dir empty_dir) = (\<lparr>stdout = [No_screenshots], issues_found = []\<rparr>, SysExit 1) \<and>
   exit_status (main Absent) = 1 \<and> exit_status (main (Dir empty_dir)) = 1 \<and>
   exit_status (main (Dir clean_dir)) = 0"
proof -
  have none: "\<forall>f \<in> set (listing empty_dir). \<not> suffix ''.png'' f"
    by (simp add: empty_dir_def suffix_to_prefix)
  have a: "exit_status (main Absent) = 1"
    using C7_no_screenshots [of Absent] by simp
  have b: "exit_status (main (Dir empty_dir)) = 1"
    using C7_no_screenshots [of "Dir empty_dir"] none by simp
  have c: "main Absent = (\<lparr>stdout = [Dir_not_found, Run_hint], issues_found = []\<rparr>, SysExit 1)"
    by (simp add: main_def print_def init_def)
  have d: "main (Dir empty_dir) = (\<lparr>stdout = [No_screenshots], issues_found = []\<rparr>, SysExit 1)"
    by (simp add: main_def list_screenshots_def empty_dir_def suffix_to_prefix print_def init_def)
  have e: "exit_status (main (Dir clean_dir)) = 0"
    by (simp add: clean_run exit_status_def)
  show ?thesis
    using a b c d e by (simp add: suffix_to_prefix)
qed


end
